theory Spec2Isabelle
  imports Complex_Main "HOL-Library.AList"
begin

section \<open>The call popup of gtk_popup.py\<close>

text \<open>
  The program is a single-threaded GLib/GTK event loop. Every handler runs to completion
  on a world that holds the registry \<open>self.calls\<close>, the GTK windows, the GLib timeout
  sources and a trace of the calls made to the outside (printing, GLib, GTK, D-Bus).
  A Python dict is an association list with \<open>map_of\<close> as lookup, \<open>AList.update\<close> as item
  assignment and \<open>AList.delete\<close> as \<open>pop\<close>; insertion order is kept as Python keeps it.
  \<open>time.monotonic()\<close> reads an external clock: the world carries the sequence of readings
  the clock will give and the number of readings taken so far. A float is the \<open>real\<close> it
  denotes. The difference of two floats is not the difference of the two reals but the float
  the platform's subtraction gives: that operation is carried by the world as well.
\<close>

subsection \<open>Data model\<close>

text \<open>The data dict stored under each call path in \<open>self.calls\<close> (\<open>_show_window\<close>).\<close>

record call_entry =
  caller_id :: string
  state :: string
  window :: nat
  start_time :: "real option"
  timer_id :: "nat option"

text \<open>
  A \<open>CallWindow\<close>. \<open>win_path\<close> is the \<open>call_path\<close> captured by the closures that
  \<open>_show_window\<close> connects to the buttons and to the destroy signal.
\<close>

record call_window =
  win_path :: string
  state_label :: string
  caller_label :: string
  timer_label :: string
  answer_sensitive :: bool
  hangup_sensitive :: bool
  visible :: bool
  destroyed :: bool

datatype action = Answer | Hangup

datatype effect =
    Print string
  | PrintExc string
  | RemoteCall string action
  | SourceRemove nat
  | TimeoutAdd nat nat string
  | Present nat
  | Destroy nat

text \<open>
  What the program takes from the platform it runs on: the readings that successive calls
  of \<open>time.monotonic()\<close> return, and the subtraction of two floats (the operator \<open>-\<close>
  of Python on floats).
\<close>

record platform =
  readings :: "nat \<Rightarrow> real"
  subtract :: "real \<Rightarrow> real \<Rightarrow> real"

record world =
  calls :: "(string \<times> call_entry) list"
  windows :: "(nat \<times> call_window) list"
  next_window :: nat
  timers :: "(nat \<times> string) list"
  next_source :: nat
  clock :: "nat \<Rightarrow> real"
  float_sub :: "real \<Rightarrow> real \<Rightarrow> real"
  clock_reads :: nat
  trace :: "effect list"

text \<open>
  \<open>PopupApp.__init__\<close>: an empty registry. GLib source identifiers are positive, so the
  first one handed out is 1.
\<close>

definition init_world :: "platform \<Rightarrow> world" where
  "init_world pf =
     \<lparr>calls = [], windows = [], next_window = 0, timers = [], next_source = 1,
      clock = readings pf, float_sub = subtract pf, clock_reads = 0, trace = []\<rparr>"

subsection \<open>Printing, the clock, GLib sources\<close>

definition log_msg :: "string \<Rightarrow> world \<Rightarrow> world" where
  "log_msg msg w = w\<lparr>trace := trace w @ [Print (''[popup] '' @ msg)]\<rparr>"

definition print_exc :: "string \<Rightarrow> world \<Rightarrow> world" where
  "print_exc exc w = w\<lparr>trace := trace w @ [PrintExc exc]\<rparr>"

definition time_monotonic :: "world \<Rightarrow> real \<times> world" where
  "time_monotonic w = (clock w (clock_reads w), w\<lparr>clock_reads := Suc (clock_reads w)\<rparr>)"

text \<open>\<open>int(x)\<close> of a (finite) float: truncation towards zero.\<close>

definition int_of_float :: "real \<Rightarrow> int" where
  "int_of_float x = (if 0 \<le> x then \<lfloor>x\<rfloor> else \<lceil>x\<rceil>)"

definition timeout_add_seconds :: "nat \<Rightarrow> string \<Rightarrow> world \<Rightarrow> nat \<times> world" where
  "timeout_add_seconds interval call_path w =
     (next_source w,
      w\<lparr>timers := AList.update (next_source w) call_path (timers w),
        next_source := Suc (next_source w),
        trace := trace w @ [TimeoutAdd interval (next_source w) call_path]\<rparr>)"

definition source_remove :: "nat \<Rightarrow> world \<Rightarrow> world" where
  "source_remove tid w =
     w\<lparr>timers := AList.delete tid (timers w), trace := trace w @ [SourceRemove tid]\<rparr>"

text \<open>
  The statement \<open>if call["timer_id"]: GLib.source_remove(call["timer_id"])\<close> of
  \<open>_mark_active\<close> and \<open>_close_call\<close>; \<open>None\<close> and \<open>0\<close> are falsy.
\<close>

definition remove_timer_if_set :: "nat option \<Rightarrow> world \<Rightarrow> world" where
  "remove_timer_if_set t w =
     (case t of None \<Rightarrow> w | Some tid \<Rightarrow> if tid = 0 then w else source_remove tid w)"

subsection \<open>CallWindow\<close>

text \<open>Python's \<open>str\<close> of a natural number, and the format specification \<open>02d\<close>.\<close>

definition digit_char :: "nat \<Rightarrow> char" where
  "digit_char d = ''0123456789'' ! d"

fun digits :: "nat \<Rightarrow> string" where
  "digits n = (if n < 10 then [digit_char n] else digits (n div 10) @ [digit_char (n mod 10)])"

declare digits.simps [simp del]

definition format_02d :: "int \<Rightarrow> string" where
  "format_02d i =
     (if i < 0
      then (let ds = digits (nat (- i)) in CHR ''-'' # replicate (1 - length ds) CHR ''0'' @ ds)
      else (let ds = digits (nat i) in replicate (2 - length ds) CHR ''0'' @ ds))"

text \<open>\<open>CallWindow.__init__\<close>, on the fields the handlers read and write.\<close>

definition new_call_window :: "string \<Rightarrow> string \<Rightarrow> call_window" where
  "new_call_window cid call_path =
     (let caller_text = (if cid = [] then ''Unknown'' else cid) in
      \<lparr>win_path = call_path,
       state_label = ''Incoming call'',
       caller_label = ''From: '' @ caller_text,
       timer_label = ''00:00'',
       answer_sensitive = True,
       hangup_sensitive = True,
       visible = False,
       destroyed = False\<rparr>)"

text \<open>The text the source file holds after \<open>Ringing\<close>, as its UTF-8 bytes.\<close>

definition ringing :: string where
  "ringing = ''Ringing'' @ map char_of [0xC3, 0xA2, 0xE2, 0x82, 0xAC, 0xC2, 0xA6 :: nat]"

definition update_timer_label :: "int \<Rightarrow> call_window \<Rightarrow> call_window" where
  "update_timer_label seconds win =
     (let mins = max seconds 0 div 60; secs = max seconds 0 mod 60
      in win\<lparr>timer_label := format_02d mins @ '':'' @ format_02d secs\<rparr>)"

definition with_window :: "nat \<Rightarrow> (call_window \<Rightarrow> call_window) \<Rightarrow> world \<Rightarrow> world" where
  "with_window wid f w = w\<lparr>windows := AList.map_entry wid f (windows w)\<rparr>"

definition present :: "nat \<Rightarrow> world \<Rightarrow> world" where
  "present wid w = w\<lparr>trace := trace w @ [Present wid]\<rparr>"

definition show_incoming :: "nat \<Rightarrow> world \<Rightarrow> world" where
  "show_incoming wid w =
     present wid
       (with_window wid
          (\<lambda>win. win\<lparr>state_label := ''Incoming call'', answer_sensitive := True,
                     hangup_sensitive := True, timer_label := ringing\<rparr>) w)"

definition show_active :: "nat \<Rightarrow> world \<Rightarrow> world" where
  "show_active wid w =
     present wid
       (with_window wid
          (\<lambda>win. win\<lparr>state_label := ''Call in progress'', answer_sensitive := False,
                     hangup_sensitive := True\<rparr>) w)"

definition mark_destroyed :: "nat \<Rightarrow> world \<Rightarrow> world" where
  "mark_destroyed wid w =
     (with_window wid (\<lambda>win. win\<lparr>destroyed := True, visible := False\<rparr>) w)
       \<lparr>trace := trace w @ [Destroy wid]\<rparr>"

subsection \<open>PopupApp: the UI helpers\<close>

definition update_timer :: "string \<Rightarrow> world \<Rightarrow> bool \<times> world" where
  "update_timer call_path w =
     (case map_of (calls w) call_path of
        None \<Rightarrow> (False, w)
      | Some call \<Rightarrow>
          if state call \<noteq> ''active'' then (False, w)
          else (case start_time call of
                  None \<Rightarrow> (False, w)
                | Some st \<Rightarrow>
                    let (now, w1) = time_monotonic w;
                        elapsed = int_of_float (float_sub w now st)
                    in (True, with_window (window call) (update_timer_label elapsed) w1)))"

definition mark_active :: "string \<Rightarrow> world \<Rightarrow> world" where
  "mark_active call_path w =
     (case map_of (calls w) call_path of
        None \<Rightarrow> w
      | Some call \<Rightarrow>
          let (now, w1) = time_monotonic w;
              call1 = call\<lparr>state := ''active'', start_time := Some now\<rparr>;
              w2 = w1\<lparr>calls := AList.update call_path call1 (calls w1)\<rparr>;
              w3 = show_active (window call1) w2;
              w4 = remove_timer_if_set (timer_id call1) w3;
              (tid, w5) = timeout_add_seconds 1 call_path w4;
              w6 = w5\<lparr>calls := AList.update call_path (call1\<lparr>timer_id := Some tid\<rparr>) (calls w5)\<rparr>
          in snd (update_timer call_path w6))"

text \<open>
  \<open>_close_call\<close>. \<open>window.destroy()\<close> emits the destroy signal, whose handler is
  \<open>lambda *_: self._close_call(call_path)\<close>: the nested call below. Destroying a window
  that is already destroyed emits nothing.
\<close>

function close_call :: "string \<Rightarrow> world \<Rightarrow> world" where
  "close_call call_path w =
     (case map_of (calls w) call_path of
        None \<Rightarrow> w
      | Some call \<Rightarrow>
          let w1 = remove_timer_if_set (timer_id call)
                     (w\<lparr>calls := AList.delete call_path (calls w)\<rparr>);
              w2 = (case map_of (windows w1) (window call) of
                      None \<Rightarrow> w1
                    | Some win \<Rightarrow>
                        if destroyed win then w1
                        else close_call (win_path win) (mark_destroyed (window call) w1))
          in log_msg (''Closed call UI for '' @ call_path) w2)"
  by pat_completeness auto

lemma calls_remove_timer_if_set [simp]: "calls (remove_timer_if_set t w) = calls w"
  by (simp add: remove_timer_if_set_def source_remove_def split: option.splits)

lemma calls_mark_destroyed [simp]: "calls (mark_destroyed wid w) = calls w"
  by (simp add: mark_destroyed_def with_window_def)

lemma length_delete_less: "map_of al k = Some v \<Longrightarrow> length (AList.delete k al) < length al"
  by (induction al) (auto simp: AList.delete_eq less_Suc_eq_le split: if_splits)

termination close_call
  apply (relation "measure (\<lambda>(p, w). length (calls w))")
   apply simp
  apply (simp add: length_delete_less)
  done

declare close_call.simps [simp del]

definition show_window :: "string \<Rightarrow> string \<Rightarrow> string \<Rightarrow> world \<Rightarrow> world" where
  "show_window call_path cid initial_state w =
     (case map_of (calls w) call_path of
        Some call \<Rightarrow> present (window call) w
      | None \<Rightarrow>
          let wid = next_window w;
              w1 = w\<lparr>windows := AList.update wid (new_call_window cid call_path) (windows w),
                     next_window := Suc wid\<rparr>;
              w2 = with_window wid (\<lambda>win. win\<lparr>visible := True\<rparr>) w1;
              w3 = w2\<lparr>calls :=
                       AList.update call_path
                         \<lparr>caller_id = (if cid = [] then ''Unknown'' else cid),
                          state = initial_state,
                          window = wid,
                          start_time = None,
                          timer_id = None\<rparr>
                         (calls w2)\<rparr>
          in if initial_state = ''active'' then mark_active call_path w3
             else show_incoming wid w3)"

subsection \<open>PopupApp: the signal handlers\<close>

text \<open>
  A D-Bus dict is an association list; the values of the Call1 properties are strings.
  \<open>kwargs.get("path")\<close> is an optional string.
\<close>

definition on_interfaces_added ::
    "string \<Rightarrow> (string \<times> (string \<times> string) list) list \<Rightarrow> world \<Rightarrow> world" where
  "on_interfaces_added path interfaces w =
     (case map_of interfaces ''org.pipewire.Telephony.Call1'' of
        None \<Rightarrow> w
      | Some call_props \<Rightarrow>
          if call_props = [] then w
          else
            let st = (case map_of call_props ''State'' of None \<Rightarrow> [] | Some s \<Rightarrow> s);
                cid = (case map_of call_props ''LineIdentification'' of
                         None \<Rightarrow> ''Unknown'' | Some s \<Rightarrow> s);
                w1 = log_msg (''Incoming call: '' @ cid @ '' (state='' @ st @ '') path='' @ path) w
            in if st = ''incoming'' then show_window path cid ''incoming'' w1 else w1)"

definition on_interfaces_removed :: "string \<Rightarrow> string list \<Rightarrow> world \<Rightarrow> world" where
  "on_interfaces_removed path interfaces w =
     (if ''org.pipewire.Telephony.Call1'' \<notin> set interfaces then w
      else close_call path (log_msg (''Call removed: '' @ path) w))"

definition on_properties_changed ::
    "string \<Rightarrow> (string \<times> string) list \<Rightarrow> string list \<Rightarrow> string option \<Rightarrow> world \<Rightarrow> world" where
  "on_properties_changed interface changed_props invalidated path_kw w =
     (if interface \<noteq> ''org.pipewire.Telephony.Call1'' then w
      else
        case map_of changed_props ''State'' of
          None \<Rightarrow> w
        | Some st \<Rightarrow>
            if st = [] then w
            else
              case path_kw of
                None \<Rightarrow> w
              | Some call_path \<Rightarrow>
                  if call_path = [] then w
                  else
                    let w1 = log_msg (''State changed: '' @ call_path @ '' -> '' @ st) w
                    in if st = ''active'' then mark_active call_path w1
                       else if st = ''disconnected'' then close_call call_path w1
                       else w1)"

subsection \<open>PopupApp: call control\<close>

text \<open>
  \<open>self._get_call_iface(call_path).Answer()\<close> is one call to the outside. What it does
  there is not the program's: the caller supplies the outcome, \<open>None\<close> when the call
  returns and \<open>Some exc\<close> when it raises \<open>exc\<close>. A function that can raise returns
  the exception that leaves it, if any, together with the world it leaves behind.
\<close>

definition remote_call ::
    "string \<Rightarrow> action \<Rightarrow> string option \<Rightarrow> world \<Rightarrow> string option \<times> world" where
  "remote_call call_path act outcome w =
     (outcome, w\<lparr>trace := trace w @ [RemoteCall call_path act]\<rparr>)"

definition answer_call :: "string \<Rightarrow> string option \<Rightarrow> world \<Rightarrow> string option \<times> world" where
  "answer_call call_path outcome w =
     (let w1 = log_msg (''Answering '' @ call_path) w
      in case remote_call call_path Answer outcome w1 of
           (None, w2) \<Rightarrow> (None, w2)
         | (Some exc, w2) \<Rightarrow> (None, print_exc exc (log_msg (''Answer failed: '' @ exc) w2)))"

definition hangup_call :: "string \<Rightarrow> string option \<Rightarrow> world \<Rightarrow> string option \<times> world" where
  "hangup_call call_path outcome w =
     (let w1 = log_msg (''Hanging up '' @ call_path) w
      in case remote_call call_path Hangup outcome w1 of
           (None, w2) \<Rightarrow> (None, w2)
         | (Some exc, w2) \<Rightarrow> (None, print_exc exc (log_msg (''Hangup failed: '' @ exc) w2)))"

subsection \<open>The event loop\<close>

text \<open>
  What the main loop dispatches: the three subscribed bus signals, a GLib timeout source
  becoming due, a click on one of the two buttons of a window (with the outcome of the
  remote call it leads to) and the window manager asking to close a window.
\<close>

datatype event =
    InterfacesAdded string "(string \<times> (string \<times> string) list) list"
  | InterfacesRemoved string "string list"
  | PropertiesChanged string "(string \<times> string) list" "string list" "string option"
  | TimerFired nat
  | AnswerClicked nat "string option"
  | HangupClicked nat "string option"
  | DeleteEvent nat

text \<open>
  GLib runs the callback \<open>lambda: self._update_timer(call_path)\<close> of a due source and
  removes the source when the callback returns \<open>False\<close>.
\<close>

definition fire_timer :: "nat \<Rightarrow> world \<Rightarrow> world" where
  "fire_timer tid w =
     (case map_of (timers w) tid of
        None \<Rightarrow> w
      | Some call_path \<Rightarrow>
          let (continue, w1) = update_timer call_path w
          in if continue then w1 else w1\<lparr>timers := AList.delete tid (timers w1)\<rparr>)"

text \<open>
  A click reaches \<open>on_answer\<close> or \<open>on_hangup\<close> only on a sensitive button of a window
  that is shown; an exception that leaves a callback is printed by the binding.
\<close>

definition click :: "action \<Rightarrow> nat \<Rightarrow> string option \<Rightarrow> world \<Rightarrow> world" where
  "click act wid outcome w =
     (case map_of (windows w) wid of
        None \<Rightarrow> w
      | Some win \<Rightarrow>
          if destroyed win \<or> \<not> visible win then w
          else if \<not> (case act of Answer \<Rightarrow> answer_sensitive win | Hangup \<Rightarrow> hangup_sensitive win)
          then w
          else
            case (case act of
                    Answer \<Rightarrow> answer_call (win_path win) outcome w
                  | Hangup \<Rightarrow> hangup_call (win_path win) outcome w) of
              (None, w1) \<Rightarrow> w1
            | (Some exc, w1) \<Rightarrow> print_exc exc w1)"

text \<open>The \<open>delete-event\<close> handler is \<open>lambda *_: True\<close>: the request is dropped.\<close>

fun step :: "event \<Rightarrow> world \<Rightarrow> world" where
  "step (InterfacesAdded path interfaces) w = on_interfaces_added path interfaces w"
| "step (InterfacesRemoved path interfaces) w = on_interfaces_removed path interfaces w"
| "step (PropertiesChanged interface changed_props invalidated path_kw) w =
     on_properties_changed interface changed_props invalidated path_kw w"
| "step (TimerFired tid) w = fire_timer tid w"
| "step (AnswerClicked wid outcome) w = click Answer wid outcome w"
| "step (HangupClicked wid outcome) w = click Hangup wid outcome w"
| "step (DeleteEvent wid) w = w"

primrec run :: "world \<Rightarrow> event list \<Rightarrow> world" where
  "run w [] = w"
| "run w (e # es) = run (step e w) es"

subsection \<open>Reading a label back\<close>

text \<open>
  The reference the label format is compared with: a label is split at its first colon and
  each field is read as a decimal number.
\<close>

definition is_digit :: "char \<Rightarrow> bool" where
  "is_digit c = (c \<in> set ''0123456789'')"

definition decimal_value :: "string \<Rightarrow> nat" where
  "decimal_value s = foldl (\<lambda>a c. 10 * a + (of_char c - 48)) 0 s"

definition minutes_field :: "string \<Rightarrow> string" where
  "minutes_field l = takeWhile (\<lambda>c. c \<noteq> CHR '':'') l"

definition seconds_field :: "string \<Rightarrow> string" where
  "seconds_field l = tl (dropWhile (\<lambda>c. c \<noteq> CHR '':'') l)"

subsection \<open>Vocabulary of the properties\<close>

abbreviation Call1 :: string where
  "Call1 \<equiv> ''org.pipewire.Telephony.Call1''"

text \<open>The registry entry of a call path, if the path is tracked.\<close>

abbreviation entry :: "world \<Rightarrow> string \<Rightarrow> call_entry option" where
  "entry w p \<equiv> map_of (calls w) p"

text \<open>
  The registry invariant: no path has two entries, and an entry holds a timer identifier
  exactly when its state is active.
\<close>

definition reg_inv :: "world \<Rightarrow> bool" where
  "reg_inv w =
     (distinct (map fst (calls w)) \<and>
      list_all (\<lambda>pc. (timer_id (snd pc) \<noteq> None) = (state (snd pc) = ''active'')) (calls w))"

text \<open>The GLib sources whose callback ticks a given call path.\<close>

definition timers_of :: "world \<Rightarrow> string \<Rightarrow> nat list" where
  "timers_of w p = map fst (filter (\<lambda>tp. snd tp = p) (timers w))"

text \<open>
  The three kinds of bus events that name a call path: the call appears in state incoming,
  its state changes to active, and it is removed or its state changes to disconnected.
  A property change carries its (non-empty) object path as the keyword \<open>path\<close>.
\<close>

fun appears :: "string \<Rightarrow> event \<Rightarrow> bool" where
  "appears p (InterfacesAdded path interfaces) =
     (path = p \<and>
      (case map_of interfaces Call1 of
         None \<Rightarrow> False
       | Some props \<Rightarrow> map_of props ''State'' = Some ''incoming''))"
| "appears p e = False"

fun activates :: "string \<Rightarrow> event \<Rightarrow> bool" where
  "activates p (PropertiesChanged interface changed_props invalidated path_kw) =
     (interface = Call1 \<and> map_of changed_props ''State'' = Some ''active'' \<and>
      path_kw = Some p \<and> p \<noteq> [])"
| "activates p e = False"

fun removes :: "string \<Rightarrow> event \<Rightarrow> bool" where
  "removes p (InterfacesRemoved path interfaces) = (path = p \<and> Call1 \<in> set interfaces)"
| "removes p (PropertiesChanged interface changed_props invalidated path_kw) =
     (interface = Call1 \<and> map_of changed_props ''State'' = Some ''disconnected'' \<and>
      path_kw = Some p \<and> p \<noteq> [])"
| "removes p e = False"

subsection \<open>Consistency of a world\<close>

text \<open>
  What every world the event loop can reach satisfies: an entry is incoming or active, it
  holds a timer exactly when it is active, its timer is a live source ticking its own
  path, its window is live and was built for its path and caller; every live source
  belongs to the entry of the path it ticks; identifiers handed out are below the
  counters.
\<close>

definition entry_ok :: "world \<Rightarrow> string \<Rightarrow> call_entry \<Rightarrow> bool" where
  "entry_ok w p c \<longleftrightarrow>
     caller_id c \<noteq> [] \<and>
     (state c = ''incoming'' \<or> state c = ''active'') \<and>
     ((timer_id c \<noteq> None) = (state c = ''active'')) \<and>
     (state c = ''active'' \<longrightarrow> start_time c \<noteq> None) \<and>
     (\<forall>t. timer_id c = Some t \<longrightarrow> 0 < t \<and> map_of (timers w) t = Some p) \<and>
     (\<exists>win. map_of (windows w) (window c) = Some win \<and> \<not> destroyed win \<and> visible win \<and>
            win_path win = p \<and> caller_label win = ''From: '' @ caller_id c)"

definition consistent :: "world \<Rightarrow> bool" where
  "consistent w \<longleftrightarrow>
     distinct (map fst (calls w)) \<and>
     distinct (map fst (timers w)) \<and>
     distinct (map fst (windows w)) \<and>
     0 < next_source w \<and>
     (\<forall>t p. map_of (timers w) t = Some p \<longrightarrow>
        t < next_source w \<and> (\<exists>c. entry w p = Some c \<and> timer_id c = Some t)) \<and>
     (\<forall>i win. map_of (windows w) i = Some win \<longrightarrow> i < next_window w) \<and>
     (\<forall>p c. entry w p = Some c \<longrightarrow> entry_ok w p c)"

text \<open>A change of a window that keeps what consistency reads of it.\<close>

definition relabels :: "(call_window \<Rightarrow> call_window) \<Rightarrow> bool" where
  "relabels f \<longleftrightarrow>
     (\<forall>win. destroyed (f win) = destroyed win \<and> visible (f win) = visible win \<and>
            win_path (f win) = win_path win \<and> caller_label (f win) = caller_label win)"

subsection \<open>A sample run\<close>

text \<open>
  The example of the specification: the call /c1 from Alice appears, becomes active at
  time 0 and is ticked at time 65. The clock is read twice when the call becomes active.
  The readings of the sample are whole numbers of seconds; the difference of two such
  floats is exact, so the sample platform subtracts exactly.
\<close>

definition clock0 :: "nat \<Rightarrow> real" where
  "clock0 n = 65 * real (n - 1)"

definition sub0 :: "real \<Rightarrow> real \<Rightarrow> real" where
  "sub0 a b = a - b"

definition platform0 :: platform where
  "platform0 = \<lparr>readings = clock0, subtract = sub0\<rparr>"

definition ev_appeared :: event where
  "ev_appeared =
     InterfacesAdded ''/c1'' [(Call1, [(''State'', ''incoming''), (''LineIdentification'', ''Alice'')])]"

definition ev_active :: event where
  "ev_active = PropertiesChanged Call1 [(''State'', ''active'')] [] (Some ''/c1'')"

definition w_incoming :: world where
  "w_incoming = run (init_world platform0) [ev_appeared]"

definition w_active :: world where
  "w_active = run (init_world platform0) [ev_appeared, ev_active]"

definition ev_removed :: event where
  "ev_removed = InterfacesRemoved ''/c1'' [Call1]"

definition ev_disconnected :: event where
  "ev_disconnected = PropertiesChanged Call1 [(''State'', ''disconnected'')] [] (Some ''/c1'')"

definition w_removed :: world where
  "w_removed = run (init_world platform0) [ev_appeared, ev_active, ev_removed]"

section \<open>The label format\<close>

lemma digit_char_cases:
  "d < 10 \<Longrightarrow> is_digit (digit_char d) \<and> of_char (digit_char d) - 48 = d"
proof -
  assume "d < 10"
  then have "d = 9 \<or> d = 8 \<or> d = 7 \<or> d = 6 \<or> d = 5 \<or> d = 4 \<or> d = 3 \<or> d = 2 \<or> d = 1 \<or> d = 0"
    by presburger
  then show ?thesis
    by (elim disjE) (simp_all add: digit_char_def is_digit_def)
qed

lemma decimal_value_snoc: "decimal_value (s @ [c]) = 10 * decimal_value s + (of_char c - 48)"
  by (simp add: decimal_value_def)

lemma digits_value: "decimal_value (digits n) = n"
proof (induction n rule: digits.induct)
  case (1 n)
  show ?case
  proof (cases "n < 10")
    case True
    then show ?thesis
      using digit_char_cases [of n] by (simp add: digits.simps [of n] decimal_value_def)
  next
    case False
    then show ?thesis
      using 1 digit_char_cases [of "n mod 10"]
      by (simp add: digits.simps [of n] decimal_value_snoc)
  qed
qed

lemma digits_all_digit: "list_all is_digit (digits n)"
proof (induction n rule: digits.induct)
  case (1 n)
  show ?case
  proof (cases "n < 10")
    case True
    then show ?thesis
      using digit_char_cases [of n] by (simp add: digits.simps [of n])
  next
    case False
    then show ?thesis
      using 1 digit_char_cases [of "n mod 10"] by (simp add: digits.simps [of n])
  qed
qed

lemma digits_length_pos: "0 < length (digits n)"
  by (subst digits.simps) simp

lemma digits_length_small: "n < 100 \<Longrightarrow> length (digits n) \<le> 2"
proof -
  assume "n < 100"
  then have "n div 10 < 10" by simp
  then have "length (digits (n div 10)) = 1" by (simp add: digits.simps [of "n div 10"])
  then show ?thesis by (simp add: digits.simps [of n])
qed

lemma digits_no_leading_zero: "0 < n \<Longrightarrow> hd (digits n) \<noteq> CHR ''0''"
proof (induction n rule: digits.induct)
  case (1 n)
  show ?case
  proof (cases "n < 10")
    case True
    with 1(2) have "n = 9 \<or> n = 8 \<or> n = 7 \<or> n = 6 \<or> n = 5 \<or> n = 4 \<or> n = 3 \<or> n = 2 \<or> n = 1"
      by presburger
    then show ?thesis
      by (elim disjE) (simp_all add: digits.simps digit_char_def)
  next
    case False
    then have "0 < n div 10" by simp
    with 1(1) False have "hd (digits (n div 10)) \<noteq> CHR ''0''" by simp
    moreover have "digits (n div 10) \<noteq> []" using digits_length_pos [of "n div 10"] by auto
    ultimately show ?thesis
      using False by (simp add: digits.simps [of n])
  qed
qed

lemma decimal_value_zeros: "decimal_value (replicate k CHR ''0'' @ s) = decimal_value s"
  by (induction k) (simp_all add: decimal_value_def)

lemma format_02d_value: "0 \<le> i \<Longrightarrow> int (decimal_value (format_02d i)) = i"
  by (simp add: format_02d_def Let_def decimal_value_zeros digits_value)

lemma is_digit_zero: "is_digit CHR ''0''"
  by (simp add: is_digit_def)

lemma is_digit_not_colon: "is_digit c \<Longrightarrow> c \<noteq> CHR '':''"
  by (auto simp add: is_digit_def)

lemma format_02d_digits: "0 \<le> i \<Longrightarrow> list_all is_digit (format_02d i)"
  using digits_all_digit [of "nat i"]
  by (auto simp add: format_02d_def Let_def list_all_iff is_digit_zero)

lemma format_02d_length: "0 \<le> i \<Longrightarrow> length (format_02d i) = max 2 (length (digits (nat i)))"
  by (simp add: format_02d_def Let_def)

lemma format_02d_length_small: "0 \<le> i \<Longrightarrow> i < 100 \<Longrightarrow> length (format_02d i) = 2"
  using digits_length_small [of "nat i"] by (simp add: format_02d_length)

lemma format_02d_minimal:
  "0 \<le> i \<Longrightarrow> 2 < length (format_02d i) \<Longrightarrow> hd (format_02d i) \<noteq> CHR ''0''"
  using digits_no_leading_zero [of "nat i"] digits_length_pos [of "nat i"]
  by (cases "i = 0") (auto simp add: format_02d_def Let_def digits.simps [of 0] max_def split: if_splits)

lemma fields_of_label:
  assumes "list_all is_digit mm"
  shows "minutes_field (mm @ '':'' @ ss) = mm" and "seconds_field (mm @ '':'' @ ss) = ss"
proof -
  have no_colon: "\<forall>c \<in> set mm. c \<noteq> CHR '':''"
    using assms by (auto simp add: list_all_iff dest: is_digit_not_colon)
  then show "minutes_field (mm @ '':'' @ ss) = mm"
    by (simp add: minutes_field_def takeWhile_append2)
  from no_colon show "seconds_field (mm @ '':'' @ ss) = ss"
    by (simp add: seconds_field_def dropWhile_append2)
qed

text \<open>
  C9. For every integer number of seconds \<open>s\<close> the label set by \<open>update_timer_label\<close> is a
  minutes field, a colon and a seconds field. Both fields are decimal digits only; the
  minutes field reads as \<open>max s 0 div 60\<close> and the seconds field as \<open>max s 0 mod 60\<close>;
  the seconds field has exactly two characters and the minutes field at least two, with a
  leading zero only to reach two. 65 seconds give the label 01:05.
\<close>

theorem timer_label_mm_ss:
  "(let l = timer_label (update_timer_label s win) in
      l = minutes_field l @ '':'' @ seconds_field l \<and>
      list_all is_digit (minutes_field l) \<and>
      list_all is_digit (seconds_field l) \<and>
      int (decimal_value (minutes_field l)) = max s 0 div 60 \<and>
      int (decimal_value (seconds_field l)) = max s 0 mod 60 \<and>
      length (seconds_field l) = 2 \<and>
      2 \<le> length (minutes_field l) \<and>
      (2 < length (minutes_field l) \<longrightarrow> hd (minutes_field l) \<noteq> CHR ''0'')) \<and>
   timer_label (update_timer_label 65 win) = ''01:05''"
proof -
  define m where "m = max s 0 div 60"
  define r where "r = max s 0 mod 60"
  have m: "0 \<le> m" and r: "0 \<le> r" "r < 100"
    by (simp_all add: m_def r_def pos_imp_zdiv_nonneg_iff) 
  have l: "timer_label (update_timer_label s win) = format_02d m @ '':'' @ format_02d r"
    by (simp add: update_timer_label_def m_def r_def)
  have fm: "minutes_field (format_02d m @ '':'' @ format_02d r) = format_02d m"
    and fs: "seconds_field (format_02d m @ '':'' @ format_02d r) = format_02d r"
    using fields_of_label [OF format_02d_digits [OF m]] by blast+
  have "2 \<le> length (format_02d m)"
    using m by (simp add: format_02d_length)
  moreover have "timer_label (update_timer_label 65 win) = ''01:05''"
    by (simp add: update_timer_label_def format_02d_def digits.simps digit_char_def)
  ultimately show ?thesis
    unfolding Let_def l fm fs
    using format_02d_digits [OF m] format_02d_digits [OF r(1)]
      format_02d_value [OF m] format_02d_value [OF r(1)]
      format_02d_length_small [OF r] format_02d_minimal [OF m]
    by (simp add: m_def r_def)
qed

theorem timer_label_mm_ss_witness:
  "(let l = timer_label (update_timer_label 6000 (new_call_window ''Alice'' ''/c1'')) in
      l = ''100:00'' \<and> 2 < length (minutes_field l) \<and> hd (minutes_field l) \<noteq> CHR ''0'')"
  using timer_label_mm_ss [of 6000 "new_call_window ''Alice'' ''/c1''"]
  by (simp add: update_timer_label_def format_02d_def digits.simps digit_char_def
      minutes_field_def)

section \<open>Projections of the primitive operations\<close>

lemmas prim_defs =
  log_msg_def print_exc_def present_def with_window_def show_incoming_def show_active_def
  mark_destroyed_def source_remove_def remove_timer_if_set_def timeout_add_seconds_def
  time_monotonic_def remote_call_def

lemma update_timer_fst:
  "fst (update_timer p w) \<longleftrightarrow>
     (\<exists>c. map_of (calls w) p = Some c \<and> state c = ''active'' \<and> start_time c \<noteq> None)"
  by (auto simp add: update_timer_def Let_def split_beta split: option.splits)

lemma update_timer_stop: "\<not> fst (update_timer p w) \<Longrightarrow> snd (update_timer p w) = w"
  by (auto simp add: update_timer_def Let_def split_beta split: option.splits if_splits)

lemma update_timer_frame [simp]:
  "calls (snd (update_timer p w)) = calls w"
  "timers (snd (update_timer p w)) = timers w"
  "next_source (snd (update_timer p w)) = next_source w"
  "next_window (snd (update_timer p w)) = next_window w"
  "trace (snd (update_timer p w)) = trace w"
  "clock (snd (update_timer p w)) = clock w"
  by (simp_all add: update_timer_def Let_def split_beta prim_defs split: option.splits)

lemma update_timer_windows:
  "windows (snd (update_timer p w)) =
     (case map_of (calls w) p of
        None \<Rightarrow> windows w
      | Some c \<Rightarrow>
          if state c \<noteq> ''active'' then windows w
          else case start_time c of
                 None \<Rightarrow> windows w
               | Some st \<Rightarrow>
                   AList.map_entry (window c)
                     (update_timer_label
                        (int_of_float (float_sub w (clock w (clock_reads w)) st)))
                     (windows w))"
  by (simp add: update_timer_def Let_def split_beta prim_defs split: option.splits)

lemma close_call_untracked: "map_of (calls w) p = None \<Longrightarrow> close_call p w = w"
  by (simp add: close_call.simps)

lemma close_call_tracked:
  "map_of (calls w) p = Some c \<Longrightarrow>
   close_call p w =
     log_msg (''Closed call UI for '' @ p)
       (let w1 = remove_timer_if_set (timer_id c) (w\<lparr>calls := AList.delete p (calls w)\<rparr>)
        in case map_of (windows w1) (window c) of
             None \<Rightarrow> w1
           | Some win \<Rightarrow>
               if destroyed win then w1
               else close_call (win_path win) (mark_destroyed (window c) w1))"
  by (subst close_call.simps) (simp add: Let_def)

lemma calls_log_msg [simp]: "calls (log_msg m w) = calls w"
  by (simp add: log_msg_def)

lemma close_call_lookup:
  "map_of (calls (close_call p w)) q = None \<or>
   map_of (calls (close_call p w)) q = map_of (calls w) q"
proof (induction p w rule: close_call.induct)
  case (1 p w)
  show ?case
  proof (cases "map_of (calls w) p")
    case None
    then show ?thesis by (simp add: close_call_untracked)
  next
    case (Some c)
    define w1 where "w1 = remove_timer_if_set (timer_id c) (w\<lparr>calls := AList.delete p (calls w)\<rparr>)"
    have del: "map_of (calls w1) q = None \<or> map_of (calls w1) q = map_of (calls w) q"
      by (simp add: w1_def AList.delete_conv')
    show ?thesis
    proof (cases "map_of (windows w1) (window c)")
      case None
      then show ?thesis
        using del Some by (simp add: close_call_tracked [OF Some] w1_def [symmetric])
    next
      case win: (Some win)
      show ?thesis
      proof (cases "destroyed win")
        case True
        then show ?thesis
          using del Some win by (simp add: close_call_tracked [OF Some] w1_def [symmetric])
      next
        case False
        from 1 [OF Some w1_def win False]
        show ?thesis
          using del win False by (auto simp add: close_call_tracked [OF Some] w1_def [symmetric])
      qed
    qed
  qed
qed

lemma close_call_removes: "map_of (calls (close_call p w)) p = None"
proof (cases "map_of (calls w) p")
  case None
  then show ?thesis by (simp add: close_call_untracked)
next
  case (Some c)
  define w1 where "w1 = remove_timer_if_set (timer_id c) (w\<lparr>calls := AList.delete p (calls w)\<rparr>)"
  have gone: "map_of (calls w1) p = None"
    by (simp add: w1_def AList.delete_conv')
  have "map_of (calls (mark_destroyed i w1)) p = None" for i
    using gone by simp
  then have "map_of (calls (close_call q (mark_destroyed i w1))) p = None" for q i
    using close_call_lookup [of q "mark_destroyed i w1" p] by auto
  then show ?thesis
    using gone by (simp add: close_call_tracked [OF Some] w1_def [symmetric] split: option.splits)
qed

lemma close_call_distinct:
  "distinct (map fst (calls w)) \<Longrightarrow> distinct (map fst (calls (close_call p w)))"
proof (induction p w rule: close_call.induct)
  case (1 p w)
  show ?case
  proof (cases "map_of (calls w) p")
    case None
    with 1(2) show ?thesis by (simp add: close_call_untracked)
  next
    case (Some c)
    define w1 where "w1 = remove_timer_if_set (timer_id c) (w\<lparr>calls := AList.delete p (calls w)\<rparr>)"
    have d1: "distinct (map fst (calls w1))"
      using 1(2) by (simp add: w1_def AList.distinct_delete)
    show ?thesis
    proof (cases "map_of (windows w1) (window c)")
      case None
      then show ?thesis
        using d1 by (simp add: close_call_tracked [OF Some] w1_def [symmetric])
    next
      case win: (Some win)
      show ?thesis
      proof (cases "destroyed win")
        case True
        then show ?thesis
          using d1 win by (simp add: close_call_tracked [OF Some] w1_def [symmetric])
      next
        case False
        have "distinct (map fst (calls (mark_destroyed (window c) w1)))"
          using d1 by simp
        from 1(1) [OF Some w1_def win False this]
        show ?thesis
          using win False by (simp add: close_call_tracked [OF Some] w1_def [symmetric])
      qed
    qed
  qed
qed

lemma mark_active_untracked: "map_of (calls w) p = None \<Longrightarrow> mark_active p w = w"
  by (simp add: mark_active_def)

lemma mark_active_calls:
  "map_of (calls w) p = Some c \<Longrightarrow>
   calls (mark_active p w) =
     AList.update p
       (c\<lparr>state := ''active'', start_time := Some (clock w (clock_reads w)),
          timer_id := Some (next_source w)\<rparr>)
       (calls w)"
  by (simp add: mark_active_def Let_def split_beta prim_defs split: option.splits)

lemma mark_active_timers:
  "map_of (calls w) p = Some c \<Longrightarrow>
   timers (mark_active p w) =
     AList.update (next_source w) p
       (case timer_id c of
          None \<Rightarrow> timers w
        | Some t \<Rightarrow> if t = 0 then timers w else AList.delete t (timers w))"
  by (simp add: mark_active_def Let_def split_beta prim_defs split: option.splits)

lemma mark_active_trace:
  "map_of (calls w) p = Some c \<Longrightarrow>
   trace (mark_active p w) =
     trace w @ [Present (window c)] @
     (case timer_id c of None \<Rightarrow> [] | Some t \<Rightarrow> if t = 0 then [] else [SourceRemove t]) @
     [TimeoutAdd 1 (next_source w) p]"
  by (simp add: mark_active_def Let_def split_beta prim_defs split: option.splits)

lemma mark_active_counters:
  "map_of (calls w) p = Some c \<Longrightarrow>
   next_source (mark_active p w) = Suc (next_source w) \<and>
   next_window (mark_active p w) = next_window w \<and>
   clock (mark_active p w) = clock w"
  by (simp add: mark_active_def Let_def split_beta prim_defs split: option.splits)

lemma mark_active_windows:
  "map_of (calls w) p = Some c \<Longrightarrow>
   windows (mark_active p w) =
     AList.map_entry (window c)
       (update_timer_label
          (int_of_float
             (float_sub w (clock w (Suc (clock_reads w))) (clock w (clock_reads w)))))
       (AList.map_entry (window c)
          (\<lambda>win. win\<lparr>state_label := ''Call in progress'', answer_sensitive := False,
                     hangup_sensitive := True\<rparr>)
          (windows w))"
  by (simp add: mark_active_def Let_def split_beta prim_defs update_timer_def
      AList.update_conv' split: option.splits)

lemma show_window_tracked:
  "map_of (calls w) p = Some c \<Longrightarrow> show_window p cid st w = present (window c) w"
  by (simp add: show_window_def)

lemma show_window_new:
  "map_of (calls w) p = None \<Longrightarrow> st \<noteq> ''active'' \<Longrightarrow>
   show_window p cid st w =
     w\<lparr>windows :=
         AList.map_entry (next_window w)
           (\<lambda>win. win\<lparr>state_label := ''Incoming call'', answer_sensitive := True,
                      hangup_sensitive := True, timer_label := ringing\<rparr>)
           (AList.map_entry (next_window w) (\<lambda>win. win\<lparr>visible := True\<rparr>)
              (AList.update (next_window w) (new_call_window cid p) (windows w))),
       next_window := Suc (next_window w),
       calls :=
         AList.update p
           \<lparr>caller_id = (if cid = [] then ''Unknown'' else cid), state = st,
            window = next_window w, start_time = None, timer_id = None\<rparr>
           (calls w),
       trace := trace w @ [Present (next_window w)]\<rparr>"
  by (simp add: show_window_def Let_def prim_defs)

lemma answer_call_eq:
  "answer_call p outcome w =
     (None,
      w\<lparr>trace := trace w @ [Print (''[popup] Answering '' @ p), RemoteCall p Answer] @
          (case outcome of
             None \<Rightarrow> []
           | Some exc \<Rightarrow> [Print (''[popup] Answer failed: '' @ exc), PrintExc exc])\<rparr>)"
  by (simp add: answer_call_def Let_def prim_defs split: option.splits)

lemma hangup_call_eq:
  "hangup_call p outcome w =
     (None,
      w\<lparr>trace := trace w @ [Print (''[popup] Hanging up '' @ p), RemoteCall p Hangup] @
          (case outcome of
             None \<Rightarrow> []
           | Some exc \<Rightarrow> [Print (''[popup] Hangup failed: '' @ exc), PrintExc exc])\<rparr>)"
  by (simp add: hangup_call_def Let_def prim_defs split: option.splits)

lemma click_frame:
  "calls (click act wid outcome w) = calls w \<and>
   windows (click act wid outcome w) = windows w \<and>
   timers (click act wid outcome w) = timers w \<and>
   next_source (click act wid outcome w) = next_source w \<and>
   next_window (click act wid outcome w) = next_window w \<and>
   clock (click act wid outcome w) = clock w \<and>
   clock_reads (click act wid outcome w) = clock_reads w"
  by (simp add: click_def answer_call_eq hangup_call_eq split: option.splits action.splits)

lemma fire_timer_frame:
  "calls (fire_timer tid w) = calls w \<and>
   next_source (fire_timer tid w) = next_source w \<and>
   next_window (fire_timer tid w) = next_window w \<and>
   clock (fire_timer tid w) = clock w \<and>
   trace (fire_timer tid w) = trace w"
  by (simp add: fire_timer_def split_beta Let_def split: option.splits)

lemmas handler_defs =
  on_interfaces_added_def on_interfaces_removed_def on_properties_changed_def
  show_window_def mark_active_def update_timer_def fire_timer_def click_def
  answer_call_def hangup_call_def new_call_window_def init_world_def

lemma w_incoming_eq:
  "w_incoming =
     \<lparr>calls = [(''/c1'', \<lparr>caller_id = ''Alice'', state = ''incoming'', window = 0,
                          start_time = None, timer_id = None\<rparr>)],
      windows = [(0, \<lparr>win_path = ''/c1'', state_label = ''Incoming call'',
                       caller_label = ''From: Alice'', timer_label = ringing,
                       answer_sensitive = True, hangup_sensitive = True,
                       visible = True, destroyed = False\<rparr>)],
      next_window = 1, timers = [], next_source = 1, clock = clock0, float_sub = sub0,
      clock_reads = 0,
      trace = [Print ''[popup] Incoming call: Alice (state=incoming) path=/c1'', Present 0]\<rparr>"
  by (simp add: w_incoming_def ev_appeared_def handler_defs prim_defs platform0_def Let_def)

lemma run_snoc: "run w (es @ [e]) = step e (run w es)"
  by (induction es arbitrary: w) simp_all

lemma w_active_step: "w_active = step ev_active w_incoming"
  by (simp add: w_active_def w_incoming_def)

lemma w_active_eq:
  "w_active =
     \<lparr>calls = [(''/c1'', \<lparr>caller_id = ''Alice'', state = ''active'', window = 0,
                          start_time = Some 0, timer_id = Some 1\<rparr>)],
      windows = [(0, \<lparr>win_path = ''/c1'', state_label = ''Call in progress'',
                       caller_label = ''From: Alice'', timer_label = ''00:00'',
                       answer_sensitive = False, hangup_sensitive = True,
                       visible = True, destroyed = False\<rparr>)],
      next_window = 1, timers = [(1, ''/c1'')], next_source = 2, clock = clock0, float_sub = sub0,
      clock_reads = 2,
      trace = [Print ''[popup] Incoming call: Alice (state=incoming) path=/c1'', Present 0,
               Print ''[popup] State changed: /c1 -> active'', Present 0,
               TimeoutAdd 1 1 ''/c1'']\<rparr>"
  by (simp add: w_active_step w_incoming_eq ev_active_def handler_defs prim_defs Let_def
      clock0_def sub0_def int_of_float_def update_timer_label_def format_02d_def
      digits.simps digit_char_def)

section \<open>Reachable worlds are consistent\<close>

lemma consistent_cong:
  assumes "calls w' = calls w" "timers w' = timers w" "windows w' = windows w"
    "next_source w' = next_source w" "next_window w' = next_window w"
  shows "consistent w' = consistent w"
  using assms by (simp add: consistent_def entry_ok_def)

lemma consistent_init: "consistent (init_world pf)"
  by (simp add: consistent_def init_world_def)

lemma consistent_log_msg [simp]: "consistent (log_msg m w) = consistent w"
  by (rule consistent_cong) (simp_all add: log_msg_def)

lemma consistent_present [simp]: "consistent (present i w) = consistent w"
  by (rule consistent_cong) (simp_all add: present_def)

lemma consistent_click [simp]: "consistent (click act wid outcome w) = consistent w"
  by (rule consistent_cong) (simp_all add: click_frame)

lemma map_of_map_entry_eq:
  "map_of (AList.map_entry k f xs) i =
     (if i = k then map_option f (map_of xs k) else map_of xs i)"
  by (simp add: map_of_map_entry split: option.splits)

lemma consistentI:
  assumes "distinct (map fst (calls w))" "distinct (map fst (timers w))"
    "distinct (map fst (windows w))" "0 < next_source w"
    "\<And>t p. map_of (timers w) t = Some p \<Longrightarrow>
       t < next_source w \<and> (\<exists>c. entry w p = Some c \<and> timer_id c = Some t)"
    "\<And>i win. map_of (windows w) i = Some win \<Longrightarrow> i < next_window w"
    "\<And>p c. entry w p = Some c \<Longrightarrow> entry_ok w p c"
  shows "consistent w"
  unfolding consistent_def using assms by blast

lemma consistentD:
  assumes "consistent w"
  shows "distinct (map fst (calls w))" "distinct (map fst (timers w))"
    "distinct (map fst (windows w))" "0 < next_source w"
    "\<And>t p. map_of (timers w) t = Some p \<Longrightarrow>
       t < next_source w \<and> (\<exists>c. entry w p = Some c \<and> timer_id c = Some t)"
    "\<And>i win. map_of (windows w) i = Some win \<Longrightarrow> i < next_window w"
    "\<And>p c. entry w p = Some c \<Longrightarrow> entry_ok w p c"
  using assms unfolding consistent_def by blast+

lemma consistent_map_entry:
  assumes "consistent w" "relabels f"
  shows "consistent (w\<lparr>windows := AList.map_entry i f (windows w)\<rparr>)"
proof (rule consistentI)
  let ?w' = "w\<lparr>windows := AList.map_entry i f (windows w)\<rparr>"
  note d = consistentD [OF assms(1)]
  show "distinct (map fst (calls ?w'))" "distinct (map fst (timers ?w'))"
    "distinct (map fst (windows ?w'))" "0 < next_source ?w'"
    using d(1-4) by (simp_all add: distinct_map_entry)
  show "t < next_source ?w' \<and> (\<exists>c. entry ?w' p = Some c \<and> timer_id c = Some t)"
    if "map_of (timers ?w') t = Some p" for t p
    using that d(5) [of t p] by simp
  show "j < next_window ?w'" if "map_of (windows ?w') j = Some win" for j win
  proof -
    from that obtain win0 where "map_of (windows w) j = Some win0"
      by (auto simp add: map_of_map_entry_eq split: if_splits)
    then show ?thesis using d(6) by simp
  qed
  show "entry_ok ?w' p c" if "entry ?w' p = Some c" for p c
  proof -
    from that have "entry_ok w p c" using d(7) by simp
    then show ?thesis
      using assms(2) by (auto simp add: entry_ok_def map_of_map_entry_eq relabels_def)
  qed
qed

lemma relabels_simps [simp]:
  "relabels (update_timer_label s)"
  "relabels (\<lambda>win. win\<lparr>state_label := a, answer_sensitive := b, hangup_sensitive := c\<rparr>)"
  "relabels (\<lambda>win. win\<lparr>state_label := a, answer_sensitive := b, hangup_sensitive := c,
                        timer_label := d\<rparr>)"
  by (simp_all add: relabels_def update_timer_label_def Let_def)

lemma consistent_with_window:
  "consistent w \<Longrightarrow> relabels f \<Longrightarrow> consistent (with_window i f w)"
  by (simp add: with_window_def consistent_map_entry)

lemma consistent_update_timer: "consistent w \<Longrightarrow> consistent (snd (update_timer p w))"
proof -
  assume c: "consistent w"
  have "consistent (w\<lparr>windows := windows (snd (update_timer p w))\<rparr>)"
    using c by (simp add: update_timer_windows consistent_map_entry split: option.splits)
  moreover have "consistent (snd (update_timer p w)) =
      consistent (w\<lparr>windows := windows (snd (update_timer p w))\<rparr>)"
    by (rule consistent_cong) simp_all
  ultimately show ?thesis by simp
qed

lemma incoming_not_active [simp]: "''incoming'' \<noteq> ''active''"
  by simp

lemma consistent_mark_active:
  assumes con: "consistent w"
  shows "consistent (mark_active p w)"
proof (cases "entry w p")
  case None
  then show ?thesis using con by (simp add: mark_active_untracked)
next
  case (Some c)
  note d = consistentD [OF con]
  have ok: "entry_ok w p c" using d(7) Some .
  define tid where "tid = next_source w"
  define c' where "c' = c\<lparr>state := ''active'', start_time := Some (clock w (clock_reads w)),
      timer_id := Some tid\<rparr>"
  define T0 where "T0 = (case timer_id c of None \<Rightarrow> timers w
      | Some t \<Rightarrow> if t = 0 then timers w else AList.delete t (timers w))"
  define X where "X = w\<lparr>calls := AList.update p c' (calls w),
      timers := AList.update tid p T0, next_source := Suc tid\<rparr>"
  have T0: "map_of T0 t = (if timer_id c = Some t then None else map_of (timers w) t)" for t
    using ok by (auto simp add: T0_def entry_ok_def AList.delete_conv' split: option.splits)
  have dT0: "distinct (map fst T0)"
    using d(2) by (simp add: T0_def AList.distinct_delete split: option.splits)
  have eX: "entry X q = (if q = p then Some c' else entry w q)" for q
    by (simp add: X_def AList.update_conv')
  have tX: "map_of (timers X) t = (if t = tid then Some p else map_of T0 t)" for t
    by (simp add: X_def AList.update_conv')
  have nX: "next_source X = Suc tid" "windows X = windows w" "next_window X = next_window w"
    by (simp_all add: X_def)
  have X: "consistent X"
  proof (rule consistentI)
    show "distinct (map fst (calls X))" "distinct (map fst (timers X))"
      "distinct (map fst (windows X))" "0 < next_source X"
      using d(1,3) dT0 by (simp_all add: X_def AList.distinct_update)
    show "t < next_source X \<and> (\<exists>c. entry X q = Some c \<and> timer_id c = Some t)"
      if "map_of (timers X) t = Some q" for t q
    proof (cases "t = tid")
      case True
      with that have "q = p" by (simp add: tX)
      then show ?thesis using True by (simp add: eX nX c'_def)
    next
      case False
      with that have old: "map_of (timers w) t = Some q" and neq: "timer_id c \<noteq> Some t"
        by (auto simp add: tX T0 split: if_splits)
      from d(5) [OF old] obtain c0 where lt: "t < next_source w"
        and c0: "entry w q = Some c0" "timer_id c0 = Some t" by blast
      with neq Some have "q \<noteq> p" by auto
      with lt c0 show ?thesis by (simp add: eX nX tid_def)
    qed
    show "i < next_window X" if "map_of (windows X) i = Some win" for i win
      using that d(6) by (simp add: nX)
    show "entry_ok X q e" if "entry X q = Some e" for q e
    proof (cases "q = p")
      case True
      with that have e: "e = c'" by (simp add: eX)
      have "0 < tid" using d(4) by (simp add: tid_def)
      then show ?thesis
        using ok unfolding e True
        by (simp add: entry_ok_def c'_def tX nX)
    next
      case False
      with that have old: "entry w q = Some e" by (simp add: eX)
      then have okq: "entry_ok w q e" using d(7) by simp
      have tm: "map_of (timers X) t = Some q" if t: "timer_id e = Some t" for t
      proof -
        from okq t have tq: "map_of (timers w) t = Some q" by (simp add: entry_ok_def)
        from d(5) [OF tq] have "t \<noteq> tid" by (simp add: tid_def)
        moreover have "timer_id c \<noteq> Some t"
        proof
          assume "timer_id c = Some t"
          with ok have "map_of (timers w) t = Some p" by (simp add: entry_ok_def)
          with tq False show False by simp
        qed
        ultimately show ?thesis using tq by (simp add: tX T0)
      qed
      show ?thesis
        using okq tm by (simp add: entry_ok_def nX)
    qed
  qed
  let ?f1 = "\<lambda>win. win\<lparr>state_label := ''Call in progress'', answer_sensitive := False,
      hangup_sensitive := True\<rparr>"
  let ?f2 = "update_timer_label
      (int_of_float
         (float_sub w (clock w (Suc (clock_reads w))) (clock w (clock_reads w))))"
  let ?Y = "X\<lparr>windows := AList.map_entry (window c) ?f1 (windows X)\<rparr>"
  let ?Z = "?Y\<lparr>windows := AList.map_entry (window c) ?f2 (windows ?Y)\<rparr>"
  have "consistent ?Y" using X by (rule consistent_map_entry) simp
  then have "consistent ?Z" by (rule consistent_map_entry) simp
  moreover have "consistent (mark_active p w) = consistent ?Z"
    using mark_active_counters [OF Some]
    by (intro consistent_cong)
      (simp_all add: mark_active_calls [OF Some] mark_active_timers [OF Some]
        mark_active_windows [OF Some] X_def c'_def T0_def tid_def)
  ultimately show ?thesis by simp
qed

lemma remove_timer_if_set_frame [simp]:
  "windows (remove_timer_if_set t w) = windows w"
  "next_source (remove_timer_if_set t w) = next_source w"
  "next_window (remove_timer_if_set t w) = next_window w"
  "clock (remove_timer_if_set t w) = clock w"
  "clock_reads (remove_timer_if_set t w) = clock_reads w"
  by (simp_all add: prim_defs split: option.splits)

lemma close_call_consistent_eq:
  assumes "consistent w" "entry w p = Some c"
  shows "close_call p w =
    log_msg (''Closed call UI for '' @ p)
      (mark_destroyed (window c)
         (remove_timer_if_set (timer_id c) (w\<lparr>calls := AList.delete p (calls w)\<rparr>)))"
proof -
  define w1 where "w1 = remove_timer_if_set (timer_id c) (w\<lparr>calls := AList.delete p (calls w)\<rparr>)"
  from consistentD(7) [OF assms] obtain win
    where win: "map_of (windows w) (window c) = Some win" "\<not> destroyed win" "win_path win = p"
    by (auto simp add: entry_ok_def)
  have w1: "map_of (windows w1) (window c) = Some win"
    using win(1) by (simp add: w1_def)
  have "entry (mark_destroyed (window c) w1) p = None"
    by (simp add: w1_def AList.delete_conv')
  then have "close_call p (mark_destroyed (window c) w1) = mark_destroyed (window c) w1"
    by (rule close_call_untracked)
  then show ?thesis
    using w1 win(2,3) by (simp add: close_call_tracked [OF assms(2)] w1_def [symmetric])
qed

lemma close_call_projections:
  assumes "consistent w" "entry w p = Some c"
  shows "calls (close_call p w) = AList.delete p (calls w)"
    and "timers (close_call p w) =
      (case timer_id c of None \<Rightarrow> timers w | Some t \<Rightarrow> AList.delete t (timers w))"
    and "windows (close_call p w) =
      AList.map_entry (window c) (\<lambda>win. win\<lparr>destroyed := True, visible := False\<rparr>) (windows w)"
    and "trace (close_call p w) =
      trace w @ (case timer_id c of None \<Rightarrow> [] | Some t \<Rightarrow> [SourceRemove t]) @
      [Destroy (window c), Print (''[popup] Closed call UI for '' @ p)]"
    and "next_source (close_call p w) = next_source w"
    and "next_window (close_call p w) = next_window w"
    and "clock (close_call p w) = clock w"
    and "clock_reads (close_call p w) = clock_reads w"
proof -
  from consistentD(7) [OF assms] have pos: "timer_id c = Some t \<Longrightarrow> 0 < t" for t
    by (simp add: entry_ok_def)
  show "calls (close_call p w) = AList.delete p (calls w)"
    by (simp add: close_call_consistent_eq [OF assms])
  show "timers (close_call p w) =
      (case timer_id c of None \<Rightarrow> timers w | Some t \<Rightarrow> AList.delete t (timers w))"
    using pos by (auto simp add: close_call_consistent_eq [OF assms] prim_defs split: option.splits)
  show "windows (close_call p w) =
      AList.map_entry (window c) (\<lambda>win. win\<lparr>destroyed := True, visible := False\<rparr>) (windows w)"
    by (simp add: close_call_consistent_eq [OF assms] prim_defs split: option.splits)
  show "trace (close_call p w) =
      trace w @ (case timer_id c of None \<Rightarrow> [] | Some t \<Rightarrow> [SourceRemove t]) @
      [Destroy (window c), Print (''[popup] Closed call UI for '' @ p)]"
    using pos by (auto simp add: close_call_consistent_eq [OF assms] prim_defs split: option.splits)
  show "next_source (close_call p w) = next_source w"
    "next_window (close_call p w) = next_window w"
    "clock (close_call p w) = clock w"
    "clock_reads (close_call p w) = clock_reads w"
    by (simp_all add: close_call_consistent_eq [OF assms] log_msg_def mark_destroyed_def
        with_window_def)
qed

lemma consistent_close_call:
  assumes con: "consistent w"
  shows "consistent (close_call p w)"
proof (cases "entry w p")
  case None
  then show ?thesis using con by (simp add: close_call_untracked)
next
  case (Some c)
  note d = consistentD [OF con]
  note pr = close_call_projections [OF con Some]
  have ok: "entry_ok w p c" using d(7) Some .
  let ?w' = "close_call p w"
  have e': "entry ?w' q = (if q = p then None else entry w q)" for q
    by (simp add: pr(1) AList.delete_conv')
  have t': "map_of (timers ?w') t = (if timer_id c = Some t then None else map_of (timers w) t)"
    for t
    by (simp add: pr(2) AList.delete_conv' split: option.splits)
  have w': "map_of (windows ?w') i =
      (if i = window c
       then map_option (\<lambda>win. win\<lparr>destroyed := True, visible := False\<rparr>) (map_of (windows w) i)
       else map_of (windows w) i)" for i
    by (simp add: pr(3) map_of_map_entry_eq)
  show ?thesis
  proof (rule consistentI)
    show "distinct (map fst (calls ?w'))" "distinct (map fst (timers ?w'))"
      "distinct (map fst (windows ?w'))" "0 < next_source ?w'"
      using d(1-4)
      by (simp_all add: pr AList.distinct_delete distinct_map_entry split: option.splits)
    show "t < next_source ?w' \<and> (\<exists>c. entry ?w' q = Some c \<and> timer_id c = Some t)"
      if "map_of (timers ?w') t = Some q" for t q
    proof -
      from that have old: "map_of (timers w) t = Some q" and neq: "timer_id c \<noteq> Some t"
        by (auto simp add: t' split: if_splits)
      from d(5) [OF old] obtain c0 where lt: "t < next_source w"
        and c0: "entry w q = Some c0" "timer_id c0 = Some t" by blast
      with neq Some have "q \<noteq> p" by auto
      with lt c0 show ?thesis by (simp add: e' pr(5))
    qed
    show "i < next_window ?w'" if "map_of (windows ?w') i = Some win" for i win
    proof -
      from that obtain win0 where "map_of (windows w) i = Some win0"
        by (auto simp add: w' split: if_splits)
      then show ?thesis using d(6) by (simp add: pr(6))
    qed
    show "entry_ok ?w' q e" if "entry ?w' q = Some e" for q e
    proof -
      from that have qp: "q \<noteq> p" and old: "entry w q = Some e"
        by (auto simp add: e' split: if_splits)
      from old have okq: "entry_ok w q e" using d(7) by simp
      have tm: "map_of (timers ?w') t = Some q" if t: "timer_id e = Some t" for t
      proof -
        from okq t have tq: "map_of (timers w) t = Some q" by (simp add: entry_ok_def)
        have "timer_id c \<noteq> Some t"
        proof
          assume "timer_id c = Some t"
          with ok have "map_of (timers w) t = Some p" by (simp add: entry_ok_def)
          with tq qp show False by simp
        qed
        then show ?thesis using tq by (simp add: t')
      qed
      have "window e \<noteq> window c"
      proof
        assume "window e = window c"
        with okq ok have "q = p" by (auto simp add: entry_ok_def)
        with qp show False by simp
      qed
      then show ?thesis
        using okq tm by (simp add: entry_ok_def w')
    qed
  qed
qed

lemma consistent_show_window:
  assumes con: "consistent w"
  shows "consistent (show_window p cid ''incoming'' w)"
proof (cases "entry w p")
  case (Some c)
  then show ?thesis using con by (simp add: show_window_tracked)
next
  case None
  note d = consistentD [OF con]
  define wid where "wid = next_window w"
  define e where "e = \<lparr>caller_id = (if cid = [] then ''Unknown'' else cid), state = ''incoming'',
      window = wid, start_time = None, timer_id = None\<rparr>"
  define nw where "nw = (new_call_window cid p)\<lparr>visible := True, state_label := ''Incoming call'',
      answer_sensitive := True, hangup_sensitive := True, timer_label := ringing\<rparr>"
  let ?w' = "show_window p cid ''incoming'' w"
  have pr: "calls ?w' = AList.update p e (calls w)" "timers ?w' = timers w"
    "next_source ?w' = next_source w" "next_window ?w' = Suc wid"
    by (simp_all add: show_window_new [OF None] e_def wid_def)
  have dw: "distinct (map fst (windows ?w'))"
    using d(3) by (simp add: show_window_new [OF None] distinct_map_entry AList.distinct_update)
  have e': "entry ?w' q = (if q = p then Some e else entry w q)" for q
    by (simp add: pr(1) AList.update_conv')
  have w': "map_of (windows ?w') i = (if i = wid then Some nw else map_of (windows w) i)" for i
    by (simp add: show_window_new [OF None] map_of_map_entry_eq AList.update_conv' wid_def nw_def)
  show ?thesis
  proof (rule consistentI)
    show "distinct (map fst (calls ?w'))" "distinct (map fst (timers ?w'))"
      "0 < next_source ?w'"
      using d(1,2,4) by (simp_all add: pr AList.distinct_update)
    show "distinct (map fst (windows ?w'))" by (rule dw)
    show "t < next_source ?w' \<and> (\<exists>c. entry ?w' q = Some c \<and> timer_id c = Some t)"
      if "map_of (timers ?w') t = Some q" for t q
    proof -
      from that have old: "map_of (timers w) t = Some q" by (simp add: pr(2))
      from d(5) [OF old] obtain c0 where lt: "t < next_source w"
        and c0: "entry w q = Some c0" "timer_id c0 = Some t" by blast
      with None have "q \<noteq> p" by auto
      with lt c0 show ?thesis by (simp add: e' pr(3))
    qed
    show "i < next_window ?w'" if "map_of (windows ?w') i = Some win" for i win
    proof (cases "i = wid")
      case True
      then show ?thesis by (simp add: pr(4))
    next
      case False
      with that have "map_of (windows w) i = Some win" by (simp add: w')
      from d(6) [OF this] show ?thesis by (simp add: pr(4) wid_def)
    qed
    show "entry_ok ?w' q c" if "entry ?w' q = Some c" for q c
    proof (cases "q = p")
      case True
      with that have c: "c = e" by (simp add: e')
      show ?thesis
        unfolding c True
        by (simp add: entry_ok_def e_def w' nw_def new_call_window_def)
    next
      case False
      with that have old: "entry w q = Some c" by (simp add: e')
      then have okq: "entry_ok w q c" using d(7) by simp
      then obtain win where "map_of (windows w) (window c) = Some win"
        by (auto simp add: entry_ok_def)
      from d(6) [OF this] have "window c \<noteq> wid" by (simp add: wid_def)
      then show ?thesis
        using okq by (simp add: entry_ok_def w' pr(2))
    qed
  qed
qed

lemma consistent_on_interfaces_added:
  "consistent w \<Longrightarrow> consistent (on_interfaces_added path interfaces w)"
  by (simp add: on_interfaces_added_def Let_def consistent_show_window split: option.splits)

lemma consistent_on_interfaces_removed:
  "consistent w \<Longrightarrow> consistent (on_interfaces_removed path interfaces w)"
  by (simp add: on_interfaces_removed_def consistent_close_call)

lemma consistent_on_properties_changed:
  "consistent w \<Longrightarrow> consistent (on_properties_changed i cp iv pk w)"
  by (simp add: on_properties_changed_def Let_def consistent_close_call consistent_mark_active
      split: option.splits)

lemma fire_timer_consistent_eq:
  assumes "consistent w" "map_of (timers w) tid = Some p"
  shows "fst (update_timer p w)" and "fire_timer tid w = snd (update_timer p w)"
proof -
  from consistentD(5) [OF assms] obtain c where c: "entry w p = Some c" "timer_id c = Some tid"
    by blast
  from consistentD(7) [OF assms(1) c(1)] c(2)
  have "state c = ''active''" "start_time c \<noteq> None"
    by (auto simp add: entry_ok_def)
  with c(1) show "fst (update_timer p w)" by (simp add: update_timer_fst)
  then show "fire_timer tid w = snd (update_timer p w)"
    using assms(2) by (simp add: fire_timer_def split_beta)
qed

lemma consistent_fire_timer: "consistent w \<Longrightarrow> consistent (fire_timer tid w)"
proof (cases "map_of (timers w) tid")
  case None
  assume "consistent w"
  with None show ?thesis by (simp add: fire_timer_def)
next
  case (Some p)
  assume "consistent w"
  then show ?thesis
    by (simp add: fire_timer_consistent_eq(2) [OF _ Some] consistent_update_timer)
qed

lemma consistent_step: "consistent w \<Longrightarrow> consistent (step e w)"
  by (cases e)
    (simp_all add: consistent_on_interfaces_added consistent_on_interfaces_removed
      consistent_on_properties_changed consistent_fire_timer)

lemma consistent_run: "consistent w \<Longrightarrow> consistent (run w es)"
  by (induction es arbitrary: w) (simp_all add: consistent_step)

lemma consistent_reachable: "consistent (run (init_world pf) es)"
  by (simp add: consistent_run consistent_init)

section \<open>What one event does to one entry\<close>

lemma update_absent: "map_of al k = None \<Longrightarrow> AList.update k v al = al @ [(k, v)]"
  by (induction al) (auto split: if_splits)

lemma mark_active_entry:
  "entry (mark_active q w) p =
     (if p = q
      then map_option
             (\<lambda>c. c\<lparr>state := ''active'', start_time := Some (clock w (clock_reads w)),
                     timer_id := Some (next_source w)\<rparr>)
             (entry w q)
      else entry w p)"
proof (cases "entry w q")
  case None
  then show ?thesis by (auto simp add: mark_active_untracked)
next
  case (Some c)
  then show ?thesis by (simp add: mark_active_calls AList.update_conv')
qed

lemma show_window_entry:
  "entry (show_window q cid ''incoming'' w) p =
     (if p = q \<and> entry w q = None
      then Some \<lparr>caller_id = (if cid = [] then ''Unknown'' else cid), state = ''incoming'',
                 window = next_window w, start_time = None, timer_id = None\<rparr>
      else entry w p)"
proof (cases "entry w q")
  case None
  then show ?thesis by (simp add: show_window_new AList.update_conv')
next
  case (Some c)
  then show ?thesis by (simp add: show_window_tracked present_def)
qed

lemma on_interfaces_added_entry:
  "entry (on_interfaces_added q interfaces w) p =
     (if appears p (InterfacesAdded q interfaces) \<and> entry w p = None
      then Some \<lparr>caller_id =
                   (case map_of (the (map_of interfaces Call1)) ''LineIdentification'' of
                      None \<Rightarrow> ''Unknown''
                    | Some s \<Rightarrow> if s = [] then ''Unknown'' else s),
                 state = ''incoming'', window = next_window w, start_time = None,
                 timer_id = None\<rparr>
      else entry w p)"
  by (auto simp add: on_interfaces_added_def Let_def show_window_entry log_msg_def
      split: option.splits)

lemma on_interfaces_removed_entry:
  assumes "consistent w"
  shows "entry (on_interfaces_removed q interfaces w) p =
     (if removes p (InterfacesRemoved q interfaces) then None else entry w p)"
proof (cases "Call1 \<in> set interfaces")
  case False
  then show ?thesis by (simp add: on_interfaces_removed_def)
next
  case True
  let ?w1 = "log_msg (''Call removed: '' @ q) w"
  have con: "consistent ?w1" using assms by simp
  show ?thesis
  proof (cases "entry w q")
    case None
    then have "entry ?w1 q = None" by simp
    then show ?thesis
      using True None by (auto simp add: on_interfaces_removed_def close_call_untracked)
  next
    case (Some c)
    then have "entry ?w1 q = Some c" by simp
    from close_call_projections(1) [OF con this] show ?thesis
      using True by (simp add: on_interfaces_removed_def AList.delete_conv')
  qed
qed

lemma on_properties_changed_entry:
  assumes "consistent w"
  shows "entry (on_properties_changed i cp iv pk w) p =
     (if removes p (PropertiesChanged i cp iv pk) then None
      else if activates p (PropertiesChanged i cp iv pk)
      then map_option
             (\<lambda>c. c\<lparr>state := ''active'', start_time := Some (clock w (clock_reads w)),
                     timer_id := Some (next_source w)\<rparr>)
             (entry w p)
      else entry w p)"
proof -
  have closes: "entry (close_call q (log_msg m w)) p = (if p = q then None else entry w p)"
    for q m
  proof (cases "entry w q")
    case None
    then have "entry (log_msg m w) q = None" by simp
    then show ?thesis using None by (auto simp add: close_call_untracked)
  next
    case (Some c)
    have con: "consistent (log_msg m w)" using assms by simp
    from Some have "entry (log_msg m w) q = Some c" by simp
    from close_call_projections(1) [OF con this] show ?thesis
      by (simp add: AList.delete_conv')
  qed
  have marks: "entry (mark_active q (log_msg m w)) p =
      (if p = q
       then map_option
              (\<lambda>c. c\<lparr>state := ''active'', start_time := Some (clock w (clock_reads w)),
                      timer_id := Some (next_source w)\<rparr>)
              (entry w q)
       else entry w p)" for q m
    by (simp add: mark_active_entry log_msg_def)
  show ?thesis
    by (auto simp add: on_properties_changed_def Let_def closes marks split: option.splits)
qed

lemma step_entry:
  assumes "consistent w"
  shows "entry (step e w) p =
     (if removes p e then None
      else if activates p e
      then map_option
             (\<lambda>c. c\<lparr>state := ''active'', start_time := Some (clock w (clock_reads w)),
                     timer_id := Some (next_source w)\<rparr>)
             (entry w p)
      else if appears p e \<and> entry w p = None
      then (case e of
              InterfacesAdded q interfaces \<Rightarrow>
                Some \<lparr>caller_id =
                        (case map_of (the (map_of interfaces Call1)) ''LineIdentification'' of
                           None \<Rightarrow> ''Unknown''
                         | Some s \<Rightarrow> if s = [] then ''Unknown'' else s),
                      state = ''incoming'', window = next_window w, start_time = None,
                      timer_id = None\<rparr>
            | _ \<Rightarrow> None)
      else entry w p)"
proof (cases e)
  case (InterfacesAdded q interfaces)
  then show ?thesis by (simp add: on_interfaces_added_entry)
next
  case (InterfacesRemoved q interfaces)
  then show ?thesis by (simp add: on_interfaces_removed_entry [OF assms])
next
  case (PropertiesChanged i cp iv pk)
  then show ?thesis by (simp add: on_properties_changed_entry [OF assms])
next
  case (TimerFired tid)
  then show ?thesis by (simp add: fire_timer_frame)
next
  case (AnswerClicked wid outcome)
  then show ?thesis by (simp add: click_frame)
next
  case (HangupClicked wid outcome)
  then show ?thesis by (simp add: click_frame)
next
  case (DeleteEvent wid)
  then show ?thesis by simp
qed

section \<open>The sample run, evaluated\<close>

lemma consistent_samples: "consistent w_incoming" "consistent w_active" "consistent w_removed"
  unfolding w_incoming_def w_active_def w_removed_def by (rule consistent_reachable)+

lemma w_removed_step: "w_removed = step ev_removed w_active"
  by (simp add: w_removed_def w_active_def)

lemma close_c1_active:
  "close_call ''/c1'' (log_msg m w_active) =
     \<lparr>calls = [],
      windows = [(0, \<lparr>win_path = ''/c1'', state_label = ''Call in progress'',
                       caller_label = ''From: Alice'', timer_label = ''00:00'',
                       answer_sensitive = False, hangup_sensitive = True,
                       visible = False, destroyed = True\<rparr>)],
      next_window = 1, timers = [], next_source = 2, clock = clock0, float_sub = sub0,
      clock_reads = 2,
      trace = trace w_active @
              [Print (''[popup] '' @ m), SourceRemove 1, Destroy 0,
               Print ''[popup] Closed call UI for /c1'']\<rparr>"
proof -
  have con: "consistent (log_msg m w_active)"
    by (simp add: consistent_samples)
  have e: "entry (log_msg m w_active) ''/c1'' =
      Some \<lparr>caller_id = ''Alice'', state = ''active'', window = 0, start_time = Some 0,
            timer_id = Some 1\<rparr>"
    by (simp add: w_active_eq)
  show ?thesis
    by (subst close_call_consistent_eq [OF con e]) (simp add: prim_defs w_active_eq)
qed

lemma w_removed_eq:
  "w_removed =
     \<lparr>calls = [],
      windows = [(0, \<lparr>win_path = ''/c1'', state_label = ''Call in progress'',
                       caller_label = ''From: Alice'', timer_label = ''00:00'',
                       answer_sensitive = False, hangup_sensitive = True,
                       visible = False, destroyed = True\<rparr>)],
      next_window = 1, timers = [], next_source = 2, clock = clock0, float_sub = sub0,
      clock_reads = 2,
      trace = trace w_active @
              [Print ''[popup] Call removed: /c1'', SourceRemove 1, Destroy 0,
               Print ''[popup] Closed call UI for /c1'']\<rparr>"
  by (simp add: w_removed_step ev_removed_def on_interfaces_removed_def close_c1_active)

section \<open>The state machine of a call\<close>

lemma active_stays:
  assumes "consistent w" "entry w p = Some c" "state c = ''active''"
    "\<forall>x \<in> set es. \<not> removes p x"
  shows "\<exists>c'. entry (run w es) p = Some c' \<and> state c' = ''active''"
  using assms
proof (induction es arbitrary: w c)
  case Nil
  then show ?case by simp
next
  case (Cons e es)
  from Cons.prems have nr: "\<not> removes p e" by simp
  have "\<exists>c1. entry (step e w) p = Some c1 \<and> state c1 = ''active''"
    using Cons.prems(2,3) nr by (simp add: step_entry [OF Cons.prems(1)])
  then obtain c1 where c1: "entry (step e w) p = Some c1" "state c1 = ''active''" by blast
  have "\<exists>c'. entry (run (step e w) es) p = Some c' \<and> state c' = ''active''"
    using Cons.prems(4) by (intro Cons.IH [OF consistent_step [OF Cons.prems(1)] c1]) simp
  then show ?case by simp
qed

text \<open>
  C2. In every world \<open>w\<close> that a sequence of events leads to, and for every further event
  and call path: the entry of the path after the event, if any, is incoming or active (no
  ended entry is kept); an active entry stays active or is gone, and it is gone only by a
  removal or a disconnect of that path; an incoming entry is unchanged, has become active
  by a change to active, or is gone by a removal or disconnect; an untracked path stays
  untracked or gets an incoming entry by an appearance. An active entry stays active
  through any further events that hold no removal or disconnect of its path.
\<close>

theorem call_state_machine:
  "(let w = run (init_world pf) es; w' = step e w in
      (\<forall>c'. entry w' p = Some c' \<longrightarrow> state c' = ''incoming'' \<or> state c' = ''active'') \<and>
      (\<forall>c. entry w p = Some c \<and> state c = ''active'' \<longrightarrow>
           (case entry w' p of None \<Rightarrow> removes p e | Some c' \<Rightarrow> state c' = ''active'')) \<and>
      (\<forall>c. entry w p = Some c \<and> state c = ''incoming'' \<longrightarrow>
           (case entry w' p of
              None \<Rightarrow> removes p e
            | Some c' \<Rightarrow> c' = c \<or> (state c' = ''active'' \<and> activates p e))) \<and>
      (entry w p = None \<longrightarrow>
           (case entry w' p of
              None \<Rightarrow> True
            | Some c' \<Rightarrow> state c' = ''incoming'' \<and> appears p e)) \<and>
      (\<forall>c. entry w p = Some c \<and> state c = ''active'' \<and> (\<forall>x \<in> set es2. \<not> removes p x) \<longrightarrow>
           (\<exists>c'. entry (run w es2) p = Some c' \<and> state c' = ''active'')))"
proof -
  define w where "w = run (init_world pf) es"
  have con: "consistent w" by (simp add: w_def consistent_reachable)
  have con': "consistent (step e w)" using con by (rule consistent_step)
  have 1: "state c' = ''incoming'' \<or> state c' = ''active''" if "entry (step e w) p = Some c'" for c'
    using consistentD(7) [OF con' that] by (simp add: entry_ok_def)
  have 2: "case entry (step e w) p of None \<Rightarrow> removes p e | Some c' \<Rightarrow> state c' = ''active''"
    if "entry w p = Some c" "state c = ''active''" for c
    using that by (simp add: step_entry [OF con])
  have 3: "case entry (step e w) p of None \<Rightarrow> removes p e
      | Some c' \<Rightarrow> c' = c \<or> (state c' = ''active'' \<and> activates p e)"
    if "entry w p = Some c" "state c = ''incoming''" for c
    using that by (simp add: step_entry [OF con])
  have 4: "case entry (step e w) p of None \<Rightarrow> True
      | Some c' \<Rightarrow> state c' = ''incoming'' \<and> appears p e"
    if "entry w p = None"
    using that by (simp add: step_entry [OF con] split: event.splits)
  have 5: "\<exists>c'. entry (run w es2) p = Some c' \<and> state c' = ''active''"
    if "entry w p = Some c" "state c = ''active''" "\<forall>x \<in> set es2. \<not> removes p x" for c
    using active_stays [OF con that] .
  show ?thesis
    unfolding Let_def w_def [symmetric] using 1 2 3 4 5 by blast
qed

theorem call_state_machine_witness:
  "entry (init_world platform0) ''/c1'' = None \<and> appears ''/c1'' ev_appeared \<and>
   entry w_incoming ''/c1'' =
     Some \<lparr>caller_id = ''Alice'', state = ''incoming'', window = 0, start_time = None,
           timer_id = None\<rparr> \<and>
   activates ''/c1'' ev_active \<and>
   entry w_active ''/c1'' =
     Some \<lparr>caller_id = ''Alice'', state = ''active'', window = 0, start_time = Some 0,
           timer_id = Some 1\<rparr> \<and>
   removes ''/c1'' ev_removed \<and>
   entry w_removed ''/c1'' = None \<and>
   (\<exists>c'. entry (run w_active [ev_active, ev_appeared]) ''/c1'' = Some c' \<and> state c' = ''active'')"
proof -
  note m = call_state_machine [of platform0 "[ev_appeared, ev_active]" ev_removed "''/c1''"
      "[ev_active, ev_appeared]", unfolded Let_def, folded w_active_def]
  have before: "entry w_active ''/c1'' =
      Some \<lparr>caller_id = ''Alice'', state = ''active'', window = 0, start_time = Some 0,
            timer_id = Some 1\<rparr>"
    by (simp add: w_active_eq)
  have quiet: "\<forall>x \<in> set [ev_active, ev_appeared]. \<not> removes ''/c1'' x"
    by (simp add: ev_active_def ev_appeared_def)
  from m before quiet
  have stays: "\<exists>c'. entry (run w_active [ev_active, ev_appeared]) ''/c1'' = Some c' \<and>
      state c' = ''active''"
    by simp
  have gone: "entry w_removed ''/c1'' = None"
    by (simp add: w_removed_eq)
  have rest: "entry (init_world platform0) ''/c1'' = None" "appears ''/c1'' ev_appeared"
    "entry w_incoming ''/c1'' =
       Some \<lparr>caller_id = ''Alice'', state = ''incoming'', window = 0, start_time = None,
             timer_id = None\<rparr>"
    "activates ''/c1'' ev_active" "removes ''/c1'' ev_removed"
    by (simp_all add: w_incoming_eq init_world_def ev_appeared_def ev_active_def
        ev_removed_def)
  show ?thesis
    using stays gone rest before by simp
qed

section \<open>The registry invariant\<close>

lemma reg_inv_iff:
  "reg_inv w \<longleftrightarrow>
     distinct (map fst (calls w)) \<and>
     (\<forall>p c. entry w p = Some c \<longrightarrow> (timer_id c \<noteq> None) = (state c = ''active''))"
proof (cases "distinct (map fst (calls w))")
  case False
  then show ?thesis by (simp add: reg_inv_def)
next
  case True
  have "list_all (\<lambda>pc. (timer_id (snd pc) \<noteq> None) = (state (snd pc) = ''active'')) (calls w) =
      (\<forall>p c. (p, c) \<in> set (calls w) \<longrightarrow> (timer_id c \<noteq> None) = (state c = ''active''))"
    unfolding list_all_iff by fastforce
  then show ?thesis
    using True by (simp add: reg_inv_def)
qed

lemma reg_inv_cong: "calls w' = calls w \<Longrightarrow> reg_inv w' = reg_inv w"
  by (simp add: reg_inv_def)

lemma reg_inv_log_msg [simp]: "reg_inv (log_msg m w) = reg_inv w"
  by (rule reg_inv_cong) simp

lemma reg_inv_mark_active: "reg_inv w \<Longrightarrow> reg_inv (mark_active q w)"
proof (cases "entry w q")
  case None
  assume "reg_inv w"
  with None show ?thesis by (simp add: mark_active_untracked)
next
  case (Some c0)
  assume r: "reg_inv w"
  have "(timer_id c \<noteq> None) = (state c = ''active'')" if "entry (mark_active q w) p = Some c" for p c
  proof (cases "p = q")
    case True
    with that Some show ?thesis by (auto simp add: mark_active_entry)
  next
    case False
    with that have "entry w p = Some c" by (simp add: mark_active_entry)
    with r show ?thesis by (simp add: reg_inv_iff)
  qed
  moreover have "distinct (map fst (calls (mark_active q w)))"
    using r by (simp add: reg_inv_iff mark_active_calls [OF Some] AList.distinct_update)
  ultimately show ?thesis by (simp add: reg_inv_iff)
qed

lemma reg_inv_close_call: "reg_inv w \<Longrightarrow> reg_inv (close_call q w)"
proof -
  assume r: "reg_inv w"
  have "(timer_id c \<noteq> None) = (state c = ''active'')" if "entry (close_call q w) p = Some c" for p c
  proof -
    from that close_call_lookup [of q w p] have "entry w p = Some c" by auto
    with r show ?thesis by (simp add: reg_inv_iff)
  qed
  moreover have "distinct (map fst (calls (close_call q w)))"
    using r by (simp add: reg_inv_iff close_call_distinct)
  ultimately show ?thesis by (simp add: reg_inv_iff)
qed

lemma reg_inv_show_window: "reg_inv w \<Longrightarrow> reg_inv (show_window q cid ''incoming'' w)"
proof (cases "entry w q")
  case (Some c)
  assume "reg_inv w"
  moreover have "calls (show_window q cid ''incoming'' w) = calls w"
    using Some by (simp add: show_window_tracked present_def)
  ultimately show ?thesis by (simp add: reg_inv_cong [of "show_window q cid ''incoming'' w" w])
next
  case None
  assume r: "reg_inv w"
  have "(timer_id c \<noteq> None) = (state c = ''active'')"
    if "entry (show_window q cid ''incoming'' w) p = Some c" for p c
  proof (cases "p = q")
    case True
    with that None show ?thesis by (auto simp add: show_window_entry)
  next
    case False
    with that have "entry w p = Some c" by (simp add: show_window_entry)
    with r show ?thesis by (simp add: reg_inv_iff)
  qed
  moreover have "distinct (map fst (calls (show_window q cid ''incoming'' w)))"
    using r None by (simp add: reg_inv_iff show_window_new AList.distinct_update)
  ultimately show ?thesis by (simp add: reg_inv_iff)
qed

lemma reg_inv_on_interfaces_added:
  "reg_inv w \<Longrightarrow> reg_inv (on_interfaces_added q interfaces w)"
proof -
  assume r: "reg_inv w"
  show ?thesis
    using r by (simp add: on_interfaces_added_def Let_def reg_inv_show_window split: option.splits)
qed

lemma reg_inv_on_interfaces_removed:
  "reg_inv w \<Longrightarrow> reg_inv (on_interfaces_removed q interfaces w)"
proof -
  assume r: "reg_inv w"
  show ?thesis
    using r by (simp add: on_interfaces_removed_def reg_inv_close_call)
qed

lemma reg_inv_on_properties_changed:
  "reg_inv w \<Longrightarrow> reg_inv (on_properties_changed i cp iv pk w)"
proof -
  assume r: "reg_inv w"
  show ?thesis
    using r
    by (simp add: on_properties_changed_def Let_def reg_inv_close_call reg_inv_mark_active
        split: option.splits)
qed

lemma reg_inv_update_timer: "reg_inv w \<Longrightarrow> reg_inv (snd (update_timer p w))"
  by (simp add: reg_inv_cong [of "snd (update_timer p w)" w])

lemma reg_inv_step: "reg_inv w \<Longrightarrow> reg_inv (step e w)"
proof (cases e)
  case (TimerFired tid)
  assume "reg_inv w"
  moreover have "calls (fire_timer tid w) = calls w" by (simp add: fire_timer_frame)
  ultimately show ?thesis using TimerFired by (simp add: reg_inv_cong [of "fire_timer tid w" w])
next
  case (AnswerClicked wid outcome)
  assume "reg_inv w"
  moreover have "calls (click Answer wid outcome w) = calls w" by (simp add: click_frame)
  ultimately show ?thesis
    using AnswerClicked by (simp add: reg_inv_cong [of "click Answer wid outcome w" w])
next
  case (HangupClicked wid outcome)
  assume "reg_inv w"
  moreover have "calls (click Hangup wid outcome w) = calls w" by (simp add: click_frame)
  ultimately show ?thesis
    using HangupClicked by (simp add: reg_inv_cong [of "click Hangup wid outcome w" w])
qed (simp_all add: reg_inv_on_interfaces_added reg_inv_on_interfaces_removed
    reg_inv_on_properties_changed)

lemma reg_inv_run: "reg_inv w \<Longrightarrow> reg_inv (run w es)"
  by (induction es arbitrary: w) (simp_all add: reg_inv_step)

text \<open>
  C1. The registry invariant (no path has two entries; an entry holds a timer identifier
  exactly when its state is active) holds of the empty registry, is kept by
  \<open>on_interfaces_added\<close>, \<open>on_interfaces_removed\<close>, \<open>on_properties_changed\<close> and
  \<open>_update_timer\<close> on every input, by every event of the loop, and so holds after every
  sequence of events.
\<close>

theorem registry_invariant_preserved:
  "reg_inv (init_world pf) \<and>
   (reg_inv w \<longrightarrow>
      reg_inv (on_interfaces_added path interfaces w) \<and>
      reg_inv (on_interfaces_removed path ifaces w) \<and>
      reg_inv (on_properties_changed i cp iv pk w) \<and>
      reg_inv (snd (update_timer path w)) \<and>
      reg_inv (step e w) \<and>
      reg_inv (run w es)) \<and>
   reg_inv (run (init_world pf) es)"
proof -
  have init: "reg_inv (init_world pf)"
    by (simp add: reg_inv_def init_world_def)
  then have "reg_inv (run (init_world pf) es)"
    by (rule reg_inv_run)
  with init show ?thesis
    by (simp add: reg_inv_on_interfaces_added reg_inv_on_interfaces_removed
        reg_inv_on_properties_changed reg_inv_update_timer reg_inv_step reg_inv_run)
qed

theorem registry_invariant_preserved_witness:
  "reg_inv w_incoming \<and> reg_inv w_active \<and> reg_inv w_removed \<and>
   reg_inv (snd (update_timer ''/c1'' w_active)) \<and>
   reg_inv (on_interfaces_added ''/c1'' [(Call1, [(''State'', ''incoming'')])] w_active) \<and>
   reg_inv (on_properties_changed Call1 [(''State'', ''active'')] [] (Some ''/c1'') w_active) \<and>
   reg_inv (on_interfaces_removed ''/c1'' [Call1] w_active)"
proof -
  have a: "reg_inv w_active"
    by (simp add: w_active_eq reg_inv_def)
  have b: "reg_inv w_incoming" "reg_inv w_removed"
    by (simp_all add: w_incoming_eq w_removed_eq reg_inv_def)
  from a b show ?thesis
    using registry_invariant_preserved [of platform0 w_active "''/c1''"
        "[(Call1, [(''State'', ''incoming'')])]" "[Call1]" Call1 "[(''State'', ''active'')]"
        "[]" "Some ''/c1''" ev_removed "[]"]
    by simp
qed

section \<open>Call control\<close>

text \<open>
  C8. \<open>answer_call\<close> and \<open>hangup_call\<close> make the remote call exactly once, whatever its
  outcome; no exception leaves them; a failure is printed with its traceback; the only
  part of the world they change is the trace of calls to the outside, so the registry,
  the windows and the timers are as before. The same holds of a click on a button.
\<close>

theorem call_control_frame:
  "fst (answer_call p outcome w) = None \<and>
   snd (answer_call p outcome w) =
     w\<lparr>trace := trace w @ [Print (''[popup] Answering '' @ p), RemoteCall p Answer] @
         (case outcome of
            None \<Rightarrow> []
          | Some exc \<Rightarrow> [Print (''[popup] Answer failed: '' @ exc), PrintExc exc])\<rparr> \<and>
   fst (hangup_call p outcome w) = None \<and>
   snd (hangup_call p outcome w) =
     w\<lparr>trace := trace w @ [Print (''[popup] Hanging up '' @ p), RemoteCall p Hangup] @
         (case outcome of
            None \<Rightarrow> []
          | Some exc \<Rightarrow> [Print (''[popup] Hangup failed: '' @ exc), PrintExc exc])\<rparr> \<and>
   calls (snd (answer_call p outcome w)) = calls w \<and>
   windows (snd (answer_call p outcome w)) = windows w \<and>
   timers (snd (answer_call p outcome w)) = timers w \<and>
   calls (snd (hangup_call p outcome w)) = calls w \<and>
   windows (snd (hangup_call p outcome w)) = windows w \<and>
   timers (snd (hangup_call p outcome w)) = timers w \<and>
   calls (step (AnswerClicked wid outcome) w) = calls w \<and>
   calls (step (HangupClicked wid outcome) w) = calls w"
  by (simp add: answer_call_eq hangup_call_eq click_frame)

theorem call_control_frame_witness:
  "answer_call ''/c1'' (Some ''timed out'') w_incoming =
     (None,
      w_incoming\<lparr>trace := trace w_incoming @
        [Print ''[popup] Answering /c1'', RemoteCall ''/c1'' Answer,
         Print ''[popup] Answer failed: timed out'', PrintExc ''timed out'']\<rparr>) \<and>
   hangup_call ''/c1'' None w_active =
     (None,
      w_active\<lparr>trace := trace w_active @
        [Print ''[popup] Hanging up /c1'', RemoteCall ''/c1'' Hangup]\<rparr>) \<and>
   calls (step (AnswerClicked 0 (Some ''timed out'')) w_incoming) = calls w_incoming"
  using call_control_frame [of "''/c1''" "Some ''timed out''" w_incoming 0]
    call_control_frame [of "''/c1''" None w_active 0]
  by (simp add: prod_eq_iff)

section \<open>Notifications that change nothing\<close>

lemma untracked_stays:
  "consistent w \<Longrightarrow> entry w p = None \<Longrightarrow> \<forall>e \<in> set es. \<not> appears p e \<Longrightarrow>
   entry (run w es) p = None"
proof (induction es arbitrary: w)
  case Nil
  then show ?case by simp
next
  case (Cons e es)
  from Cons.prems have "entry (step e w) p = None"
    by (simp add: step_entry)
  moreover have "consistent (step e w)" using Cons.prems(1) by (rule consistent_step)
  ultimately show ?case using Cons.IH Cons.prems(3) by simp
qed

lemma on_properties_changed_untracked:
  assumes "entry w p = None"
  shows "calls (on_properties_changed i cp iv (Some p) w) = calls w \<and>
      windows (on_properties_changed i cp iv (Some p) w) = windows w \<and>
      timers (on_properties_changed i cp iv (Some p) w) = timers w"
  using assms
  by (simp add: on_properties_changed_def Let_def mark_active_untracked close_call_untracked
      log_msg_def split: option.splits)

lemma on_interfaces_removed_untracked:
  assumes "entry w p = None"
  shows "calls (on_interfaces_removed p ifaces w) = calls w \<and>
      windows (on_interfaces_removed p ifaces w) = windows w \<and>
      timers (on_interfaces_removed p ifaces w) = timers w"
  using assms
  by (simp add: on_interfaces_removed_def close_call_untracked log_msg_def)

text \<open>
  C6. For a call path that has no entry, and so for every path that no appearance in state
  incoming has named since the start, \<open>on_properties_changed\<close> and
  \<open>on_interfaces_removed\<close> leave the registry, the windows and the timers as they are. A
  property change for another interface, without a state or with an empty one, or without
  a path or with an empty one, and a removal that does not list the Call1 interface,
  leave the whole world as it is.
\<close>

theorem untracked_and_malformed_are_noops:
  "(entry w p = None \<longrightarrow>
      calls (on_properties_changed i cp iv (Some p) w) = calls w \<and>
      windows (on_properties_changed i cp iv (Some p) w) = windows w \<and>
      timers (on_properties_changed i cp iv (Some p) w) = timers w \<and>
      calls (on_interfaces_removed p ifaces w) = calls w \<and>
      windows (on_interfaces_removed p ifaces w) = windows w \<and>
      timers (on_interfaces_removed p ifaces w) = timers w) \<and>
   ((\<forall>e \<in> set es. \<not> appears p e) \<longrightarrow> entry (run (init_world pf) es) p = None) \<and>
   (i \<noteq> Call1 \<longrightarrow> on_properties_changed i cp iv pk w = w) \<and>
   (map_of cp ''State'' = None \<or> map_of cp ''State'' = Some [] \<longrightarrow>
      on_properties_changed i cp iv pk w = w) \<and>
   (pk = None \<or> pk = Some [] \<longrightarrow> on_properties_changed i cp iv pk w = w) \<and>
   (Call1 \<notin> set ifaces \<longrightarrow> on_interfaces_removed p ifaces w = w)"
proof -
  have 1: "calls (on_properties_changed i cp iv (Some p) w) = calls w \<and>
      windows (on_properties_changed i cp iv (Some p) w) = windows w \<and>
      timers (on_properties_changed i cp iv (Some p) w) = timers w" if "entry w p = None"
    using on_properties_changed_untracked [OF that, of i cp iv] .
  have 2: "calls (on_interfaces_removed p ifaces w) = calls w \<and>
      windows (on_interfaces_removed p ifaces w) = windows w \<and>
      timers (on_interfaces_removed p ifaces w) = timers w" if "entry w p = None"
    using on_interfaces_removed_untracked [OF that, of ifaces] .
  have 3: "entry (run (init_world pf) es) p = None" if "\<forall>e \<in> set es. \<not> appears p e"
    using that by (intro untracked_stays consistent_init) (simp_all add: init_world_def)
  have 4: "on_properties_changed i cp iv pk w = w"
    if "i \<noteq> Call1 \<or> map_of cp ''State'' = None \<or> map_of cp ''State'' = Some [] \<or>
      pk = None \<or> pk = Some []"
    using that by (auto simp add: on_properties_changed_def split: option.splits)
  have 5: "on_interfaces_removed p ifaces w = w" if "Call1 \<notin> set ifaces"
    using that by (simp add: on_interfaces_removed_def)
  show ?thesis
    using 1 2 3 4 5 by blast
qed

theorem untracked_and_malformed_are_noops_witness:
  "entry w_active ''/c2'' = None \<and>
   calls (on_properties_changed Call1 [(''State'', ''active'')] [] (Some ''/c2'') w_active) =
     calls w_active \<and>
   timers (on_properties_changed Call1 [(''State'', ''active'')] [] (Some ''/c2'') w_active) =
     timers w_active \<and>
   calls (on_interfaces_removed ''/c2'' [Call1] w_active) = calls w_active \<and>
   entry (run (init_world platform0) [ev_appeared, ev_active]) ''/c2'' = None \<and>
   on_properties_changed ''org.freedesktop.DBus.Properties'' [(''State'', ''active'')] []
     (Some ''/c1'') w_active = w_active \<and>
   on_properties_changed Call1 [(''Multiparty'', ''1'')] [] (Some ''/c1'') w_active = w_active \<and>
   on_properties_changed Call1 [(''State'', ''active'')] [] None w_active = w_active \<and>
   on_interfaces_removed ''/c1'' [''org.freedesktop.DBus.Properties''] w_active = w_active"
proof -
  have h: "entry w_active ''/c2'' = None"
    "\<forall>e \<in> set [ev_appeared, ev_active]. \<not> appears ''/c2'' e"
    by (simp_all add: w_active_eq ev_appeared_def ev_active_def)
  note a = untracked_and_malformed_are_noops [of w_active "''/c2''" Call1
      "[(''State'', ''active'')]" "[]" "[Call1]" "[ev_appeared, ev_active]" platform0 "None"]
  note b = untracked_and_malformed_are_noops [of w_active "''/c1''"
      "''org.freedesktop.DBus.Properties''" "[(''State'', ''active'')]" "[]"
      "[''org.freedesktop.DBus.Properties'']" "[]" platform0 "Some ''/c1''"]
  note c = untracked_and_malformed_are_noops [of w_active "''/c1''" Call1
      "[(''Multiparty'', ''1'')]" "[]" "[Call1]" "[]" platform0 "Some ''/c1''"]
  from h a have "calls (on_properties_changed Call1 [(''State'', ''active'')] [] (Some ''/c2'') w_active) =
     calls w_active \<and>
   timers (on_properties_changed Call1 [(''State'', ''active'')] [] (Some ''/c2'') w_active) =
     timers w_active \<and>
   calls (on_interfaces_removed ''/c2'' [Call1] w_active) = calls w_active \<and>
   entry (run (init_world platform0) [ev_appeared, ev_active]) ''/c2'' = None \<and>
   on_properties_changed Call1 [(''State'', ''active'')] [] None w_active = w_active"
    by blast
  moreover from b have "on_properties_changed ''org.freedesktop.DBus.Properties''
      [(''State'', ''active'')] [] (Some ''/c1'') w_active = w_active \<and>
    on_interfaces_removed ''/c1'' [''org.freedesktop.DBus.Properties''] w_active = w_active"
    by simp
  moreover from c have
    "on_properties_changed Call1 [(''Multiparty'', ''1'')] [] (Some ''/c1'') w_active = w_active"
    by simp
  ultimately show ?thesis using h(1) by blast
qed

section \<open>A call appears\<close>

text \<open>
  C3 (as the code has it). Let an appearance carry a non-empty Call1 property dict. If the
  path is tracked and the reported state is incoming, the window of the call is presented
  again and registry, windows and timers are unchanged. If the path is tracked and the
  reported state is anything else, only the log line is printed: the window is not
  presented. If the path is untracked and the reported state is incoming, exactly one
  entry is added, in state incoming with no start time and no timer, and a new window in
  incoming mode is shown and presented. If the path is untracked and the reported state
  is anything else, only the log line is printed. Without the Call1 interface, or with an
  empty property dict, nothing happens at all.
\<close>

theorem appeared_contract:
  "(map_of interfaces Call1 = Some props \<and> props \<noteq> [] \<longrightarrow>
     (let w' = on_interfaces_added p interfaces w;
          st = (case map_of props ''State'' of None \<Rightarrow> [] | Some s \<Rightarrow> s);
          cid = (case map_of props ''LineIdentification'' of None \<Rightarrow> ''Unknown'' | Some s \<Rightarrow> s);
          line = Print (''[popup] Incoming call: '' @ cid @ '' (state='' @ st @ '') path='' @ p)
      in (\<forall>c. entry w p = Some c \<and> st = ''incoming'' \<longrightarrow>
              w' = w\<lparr>trace := trace w @ [line, Present (window c)]\<rparr>) \<and>
         (\<forall>c. entry w p = Some c \<and> st \<noteq> ''incoming'' \<longrightarrow>
              w' = w\<lparr>trace := trace w @ [line]\<rparr>) \<and>
         (entry w p = None \<and> st = ''incoming'' \<longrightarrow>
              calls w' =
                calls w @
                [(p, \<lparr>caller_id = (if cid = [] then ''Unknown'' else cid), state = ''incoming'',
                       window = next_window w, start_time = None, timer_id = None\<rparr>)] \<and>
              map_of (windows w') (next_window w) =
                Some \<lparr>win_path = p, state_label = ''Incoming call'',
                      caller_label = ''From: '' @ (if cid = [] then ''Unknown'' else cid),
                      timer_label = ringing, answer_sensitive = True,
                      hangup_sensitive = True, visible = True, destroyed = False\<rparr> \<and>
              timers w' = timers w \<and>
              trace w' = trace w @ [line, Present (next_window w)]) \<and>
         (entry w p = None \<and> st \<noteq> ''incoming'' \<longrightarrow> w' = w\<lparr>trace := trace w @ [line]\<rparr>))) \<and>
   (map_of interfaces Call1 = None \<or> map_of interfaces Call1 = Some [] \<longrightarrow>
      on_interfaces_added p interfaces w = w)"
proof -
  define st where "st = (case map_of props ''State'' of None \<Rightarrow> [] | Some s \<Rightarrow> s)"
  define cid where
    "cid = (case map_of props ''LineIdentification'' of None \<Rightarrow> ''Unknown'' | Some s \<Rightarrow> s)"
  define m where "m = ''Incoming call: '' @ cid @ '' (state='' @ st @ '') path='' @ p"
  define w' where "w' = on_interfaces_added p interfaces w"
  have line: "Print (''[popup] Incoming call: '' @ cid @ '' (state='' @ st @ '') path='' @ p) =
      Print (''[popup] '' @ m)"
    by (simp add: m_def)
  have absent: "on_interfaces_added p interfaces w = w"
    if "map_of interfaces Call1 = None \<or> map_of interfaces Call1 = Some []"
    using that by (auto simp add: on_interfaces_added_def)
  have present: "w' = (if st = ''incoming'' then show_window p cid ''incoming'' (log_msg m w)
      else log_msg m w)"
    if "map_of interfaces Call1 = Some props" "props \<noteq> []"
    using that by (simp add: w'_def on_interfaces_added_def Let_def st_def cid_def m_def)
  have other: "w' = w\<lparr>trace := trace w @ [Print (''[popup] '' @ m)]\<rparr>"
    if "map_of interfaces Call1 = Some props" "props \<noteq> []" "st \<noteq> ''incoming''"
    using present [OF that(1,2)] that(3) by (simp add: log_msg_def)
  have again: "w' = w\<lparr>trace := trace w @ [Print (''[popup] '' @ m), Present (window c)]\<rparr>"
    if "map_of interfaces Call1 = Some props" "props \<noteq> []" "st = ''incoming''"
      "entry w p = Some c" for c
  proof -
    have "entry (log_msg m w) p = Some c" using that(4) by simp
    then have "show_window p cid ''incoming'' (log_msg m w) = present (window c) (log_msg m w)"
      by (rule show_window_tracked)
    then show ?thesis
      using present [OF that(1,2)] that(3) by (simp add: log_msg_def present_def)
  qed
  have new: "calls w' =
        calls w @
        [(p, \<lparr>caller_id = (if cid = [] then ''Unknown'' else cid), state = ''incoming'',
               window = next_window w, start_time = None, timer_id = None\<rparr>)] \<and>
      map_of (windows w') (next_window w) =
        Some \<lparr>win_path = p, state_label = ''Incoming call'',
              caller_label = ''From: '' @ (if cid = [] then ''Unknown'' else cid),
              timer_label = ringing, answer_sensitive = True,
              hangup_sensitive = True, visible = True, destroyed = False\<rparr> \<and>
      timers w' = timers w \<and>
      trace w' = trace w @ [Print (''[popup] '' @ m), Present (next_window w)]"
    if "map_of interfaces Call1 = Some props" "props \<noteq> []" "st = ''incoming''"
      "entry w p = None"
  proof -
    have u: "entry (log_msg m w) p = None" using that(4) by simp
    have "w' = show_window p cid ''incoming'' (log_msg m w)"
      using present [OF that(1,2)] that(3) by simp
    also have "\<dots> = (log_msg m w)\<lparr>windows :=
         AList.map_entry (next_window (log_msg m w))
           (\<lambda>win. win\<lparr>state_label := ''Incoming call'', answer_sensitive := True,
                      hangup_sensitive := True, timer_label := ringing\<rparr>)
           (AList.map_entry (next_window (log_msg m w)) (\<lambda>win. win\<lparr>visible := True\<rparr>)
              (AList.update (next_window (log_msg m w)) (new_call_window cid p)
                 (windows (log_msg m w)))),
       next_window := Suc (next_window (log_msg m w)),
       calls :=
         AList.update p
           \<lparr>caller_id = (if cid = [] then ''Unknown'' else cid), state = ''incoming'',
            window = next_window (log_msg m w), start_time = None, timer_id = None\<rparr>
           (calls (log_msg m w)),
       trace := trace (log_msg m w) @ [Present (next_window (log_msg m w))]\<rparr>"
      by (rule show_window_new [OF u]) simp
    finally have w': "w' = (log_msg m w)\<lparr>windows :=
         AList.map_entry (next_window (log_msg m w))
           (\<lambda>win. win\<lparr>state_label := ''Incoming call'', answer_sensitive := True,
                      hangup_sensitive := True, timer_label := ringing\<rparr>)
           (AList.map_entry (next_window (log_msg m w)) (\<lambda>win. win\<lparr>visible := True\<rparr>)
              (AList.update (next_window (log_msg m w)) (new_call_window cid p)
                 (windows (log_msg m w)))),
       next_window := Suc (next_window (log_msg m w)),
       calls :=
         AList.update p
           \<lparr>caller_id = (if cid = [] then ''Unknown'' else cid), state = ''incoming'',
            window = next_window (log_msg m w), start_time = None, timer_id = None\<rparr>
           (calls (log_msg m w)),
       trace := trace (log_msg m w) @ [Present (next_window (log_msg m w))]\<rparr>" .
    have "calls w' = AList.update p
        \<lparr>caller_id = (if cid = [] then ''Unknown'' else cid), state = ''incoming'',
         window = next_window w, start_time = None, timer_id = None\<rparr> (calls w)"
      unfolding w' by (simp add: log_msg_def)
    then have 1: "calls w' =
        calls w @
        [(p, \<lparr>caller_id = (if cid = [] then ''Unknown'' else cid), state = ''incoming'',
               window = next_window w, start_time = None, timer_id = None\<rparr>)]"
      using that(4) by (simp add: update_absent)
    have 2: "map_of (windows w') (next_window w) =
        Some \<lparr>win_path = p, state_label = ''Incoming call'',
              caller_label = ''From: '' @ (if cid = [] then ''Unknown'' else cid),
              timer_label = ringing, answer_sensitive = True,
              hangup_sensitive = True, visible = True, destroyed = False\<rparr>"
      unfolding w'
      by (simp add: log_msg_def map_of_map_entry_eq AList.update_conv' new_call_window_def)
    have 3: "timers w' = timers w"
      "trace w' = trace w @ [Print (''[popup] '' @ m), Present (next_window w)]"
      unfolding w' by (simp_all add: log_msg_def)
    from 1 2 3 show ?thesis by blast
  qed
  show ?thesis
    unfolding Let_def st_def [symmetric] cid_def [symmetric] w'_def [symmetric] line
  proof (intro conjI impI allI)
    show "w' = w"
      if "map_of interfaces Call1 = None \<or> map_of interfaces Call1 = Some []"
      unfolding w'_def using that by (rule absent)
  qed (use other again new in \<open>simp_all\<close>)
qed

theorem appeared_contract_witness:
  "on_interfaces_added ''/c1'' [(Call1, [(''State'', ''incoming'')])] w_incoming =
     w_incoming\<lparr>trace := trace w_incoming @
       [Print ''[popup] Incoming call: Unknown (state=incoming) path=/c1'', Present 0]\<rparr> \<and>
   calls (on_interfaces_added ''/c2''
            [(Call1, [(''State'', ''incoming''), (''LineIdentification'', ''Bob'')])] w_incoming) =
     calls w_incoming @
     [(''/c2'', \<lparr>caller_id = ''Bob'', state = ''incoming'', window = 1, start_time = None,
                 timer_id = None\<rparr>)] \<and>
   on_interfaces_added ''/c2'' [(Call1, [(''State'', ''active'')])] w_incoming =
     w_incoming\<lparr>trace := trace w_incoming @
       [Print ''[popup] Incoming call: Unknown (state=active) path=/c2'']\<rparr> \<and>
   on_interfaces_added ''/c2'' [] w_incoming = w_incoming"
proof -
  have t: "entry w_incoming ''/c1'' =
      Some \<lparr>caller_id = ''Alice'', state = ''incoming'', window = 0, start_time = None,
            timer_id = None\<rparr>"
    and u: "entry w_incoming ''/c2'' = None" and n: "next_window w_incoming = 1"
    by (simp_all add: w_incoming_eq)
  note a = appeared_contract [of "[(Call1, [(''State'', ''incoming'')])]"
      "[(''State'', ''incoming'')]" "''/c1''" w_incoming, unfolded Let_def]
  note b = appeared_contract [of
      "[(Call1, [(''State'', ''incoming''), (''LineIdentification'', ''Bob'')])]"
      "[(''State'', ''incoming''), (''LineIdentification'', ''Bob'')]" "''/c2''" w_incoming,
      unfolded Let_def]
  note c = appeared_contract [of "[(Call1, [(''State'', ''active'')])]"
      "[(''State'', ''active'')]" "''/c2''" w_incoming, unfolded Let_def]
  note d = appeared_contract [of "[]" "[]" "''/c2''" w_incoming, unfolded Let_def]
  from a t have 1: "on_interfaces_added ''/c1'' [(Call1, [(''State'', ''incoming'')])] w_incoming =
     w_incoming\<lparr>trace := trace w_incoming @
       [Print ''[popup] Incoming call: Unknown (state=incoming) path=/c1'', Present 0]\<rparr>"
    by simp
  from b u n have 2: "calls (on_interfaces_added ''/c2''
            [(Call1, [(''State'', ''incoming''), (''LineIdentification'', ''Bob'')])] w_incoming) =
     calls w_incoming @
     [(''/c2'', \<lparr>caller_id = ''Bob'', state = ''incoming'', window = 1, start_time = None,
                 timer_id = None\<rparr>)]"
    by simp
  from c u have 3: "on_interfaces_added ''/c2'' [(Call1, [(''State'', ''active'')])] w_incoming =
     w_incoming\<lparr>trace := trace w_incoming @
       [Print ''[popup] Incoming call: Unknown (state=active) path=/c2'']\<rparr>"
    by simp
  from d have 4: "on_interfaces_added ''/c2'' [] w_incoming = w_incoming"
    by simp
  from 1 2 3 4 show ?thesis by blast
qed

text \<open>
  The claim as the specification words it fails for a tracked call that is reported again
  in a state other than incoming: the window of /c1 is not presented, only the log line is
  printed.
\<close>

theorem appeared_again_active_counterexample:
  "entry w_incoming ''/c1'' =
     Some \<lparr>caller_id = ''Alice'', state = ''incoming'', window = 0, start_time = None,
           timer_id = None\<rparr> \<and>
   on_interfaces_added ''/c1'' [(Call1, [(''State'', ''active'')])] w_incoming =
     w_incoming\<lparr>trace := trace w_incoming @
       [Print ''[popup] Incoming call: Unknown (state=active) path=/c1'']\<rparr> \<and>
   Present 0 \<notin> set [Print ''[popup] Incoming call: Unknown (state=active) path=/c1'']"
  by (simp add: w_incoming_eq on_interfaces_added_def Let_def log_msg_def)

section \<open>The tick\<close>

lemma max_int_of_float: "max (int_of_float x) 0 = \<lfloor>max x 0\<rfloor>"
proof (cases "0 \<le> x")
  case True
  then have "0 \<le> \<lfloor>x\<rfloor>" by simp
  then have "max \<lfloor>x\<rfloor> 0 = \<lfloor>x\<rfloor>" by (rule max_absorb1)
  moreover have "max x 0 = x" using True by (rule max_absorb1)
  ultimately show ?thesis using True by (simp add: int_of_float_def)
next
  case False
  then have "\<lceil>x\<rceil> \<le> 0" by (simp add: ceiling_le_zero)
  then have "max \<lceil>x\<rceil> 0 = 0" by (rule max_absorb2)
  moreover have "max x 0 = 0" using False by (intro max_absorb2) simp
  ultimately show ?thesis using False by (simp add: int_of_float_def)
qed

lemma update_timer_label_max: "update_timer_label s = update_timer_label (max s 0)"
  by (rule ext) (simp add: update_timer_label_def)

lemma update_timer_label_floor:
  "update_timer_label (int_of_float x) = update_timer_label \<lfloor>max x 0\<rfloor>"
  by (metis update_timer_label_max max_int_of_float)

text \<open>
  C7. \<open>_update_timer\<close> returns \<open>True\<close> exactly when the path is tracked, its state is active
  and it has a start time. When it returns \<open>False\<close> the world is unchanged (no label is
  set, no clock is read), and GLib, on that result, removes the source that fired. The
  registry is never changed by a tick. In a world the event loop can reach, a tick that
  continues sets the timer label of the call's window to the rendering of
  \<open>now - start_time\<close>, floored at zero and taken in whole seconds, where \<open>now\<close> is the
  clock reading the tick takes and the difference is the float that the platform's
  subtraction gives for the two timestamps.
\<close>

theorem tick_contract:
  "(fst (update_timer p w) \<longleftrightarrow>
      (\<exists>c. entry w p = Some c \<and> state c = ''active'' \<and> start_time c \<noteq> None)) \<and>
   (\<not> fst (update_timer p w) \<longrightarrow> snd (update_timer p w) = w) \<and>
   (\<forall>tid. map_of (timers w) tid = Some p \<and> \<not> fst (update_timer p w) \<longrightarrow>
      fire_timer tid w = w\<lparr>timers := AList.delete tid (timers w)\<rparr>) \<and>
   calls (snd (update_timer p w)) = calls w \<and>
   (\<forall>c st. w = run (init_world pf) es \<and> entry w p = Some c \<and> state c = ''active'' \<and>
      start_time c = Some st \<longrightarrow>
      (\<exists>win. map_of (windows w) (window c) = Some win \<and>
         map_of (windows (snd (update_timer p w))) (window c) =
           Some (update_timer_label
                  \<lfloor>max (float_sub w (clock w (clock_reads w)) st) 0\<rfloor> win)))"
proof -
  have stop: "fire_timer tid w = w\<lparr>timers := AList.delete tid (timers w)\<rparr>"
    if "map_of (timers w) tid = Some p" "\<not> fst (update_timer p w)" for tid
    using that update_timer_stop [OF that(2)] by (simp add: fire_timer_def split_beta)
  have label: "\<exists>win. map_of (windows w) (window c) = Some win \<and>
      map_of (windows (snd (update_timer p w))) (window c) =
        Some (update_timer_label
                  \<lfloor>max (float_sub w (clock w (clock_reads w)) st) 0\<rfloor> win)"
    if "w = run (init_world pf) es" "entry w p = Some c" "state c = ''active''"
      "start_time c = Some st" for c st
  proof -
    have "consistent w" unfolding that(1) by (rule consistent_reachable)
    from consistentD(7) [OF this that(2)] obtain win
      where win: "map_of (windows w) (window c) = Some win"
      by (auto simp add: entry_ok_def)
    then show ?thesis
      using that(2-4)
      by (simp add: update_timer_windows map_of_map_entry_eq update_timer_label_floor)
  qed
  show ?thesis
    using update_timer_fst [of p w] update_timer_stop [of p w] stop label
      update_timer_frame(1) [of p w]
    by blast
qed

theorem tick_contract_witness:
  "fst (update_timer ''/c1'' w_active) \<and>
   map_of (windows (snd (update_timer ''/c1'' w_active))) 0 =
     Some \<lparr>win_path = ''/c1'', state_label = ''Call in progress'',
           caller_label = ''From: Alice'', timer_label = ''01:05'',
           answer_sensitive = False, hangup_sensitive = True,
           visible = True, destroyed = False\<rparr> \<and>
   calls (snd (update_timer ''/c1'' w_active)) = calls w_active \<and>
   \<not> fst (update_timer ''/c1'' w_incoming) \<and>
   snd (update_timer ''/c1'' w_incoming) = w_incoming \<and>
   \<not> fst (update_timer ''/c1'' w_removed) \<and>
   snd (update_timer ''/c1'' w_removed) = w_removed"
proof -
  note a = tick_contract [of "''/c1''" w_active platform0 "[ev_appeared, ev_active]",
      folded w_active_def]
  note b = tick_contract [of "''/c1''" w_incoming platform0 "[]"]
  note c = tick_contract [of "''/c1''" w_removed platform0 "[]"]
  have e: "entry w_active ''/c1'' =
      Some \<lparr>caller_id = ''Alice'', state = ''active'', window = 0, start_time = Some 0,
            timer_id = Some 1\<rparr>"
    "map_of (windows w_active) 0 =
      Some \<lparr>win_path = ''/c1'', state_label = ''Call in progress'',
           caller_label = ''From: Alice'', timer_label = ''00:00'',
           answer_sensitive = False, hangup_sensitive = True,
           visible = True, destroyed = False\<rparr>"
    "clock w_active (clock_reads w_active) = 65"
    "float_sub w_active 65 0 = 65"
    by (simp_all add: w_active_eq clock0_def sub0_def)
  have l: "update_timer_label 65 win = win\<lparr>timer_label := ''01:05''\<rparr>" for win
    by (simp add: update_timer_label_def format_02d_def digits.simps digit_char_def)
  from a e have 1: "fst (update_timer ''/c1'' w_active) \<and>
      map_of (windows (snd (update_timer ''/c1'' w_active))) 0 =
        Some \<lparr>win_path = ''/c1'', state_label = ''Call in progress'',
           caller_label = ''From: Alice'', timer_label = ''01:05'',
           answer_sensitive = False, hangup_sensitive = True,
           visible = True, destroyed = False\<rparr> \<and>
      calls (snd (update_timer ''/c1'' w_active)) = calls w_active"
    by (simp add: l)
  have "entry w_incoming ''/c1'' =
      Some \<lparr>caller_id = ''Alice'', state = ''incoming'', window = 0, start_time = None,
            timer_id = None\<rparr>"
    by (simp add: w_incoming_eq)
  with b have 2: "\<not> fst (update_timer ''/c1'' w_incoming) \<and>
      snd (update_timer ''/c1'' w_incoming) = w_incoming"
    by simp
  have "entry w_removed ''/c1'' = None"
    by (simp add: w_removed_eq)
  with c have 3: "\<not> fst (update_timer ''/c1'' w_removed) \<and>
      snd (update_timer ''/c1'' w_removed) = w_removed"
    by simp
  from 1 2 3 show ?thesis by blast
qed

section \<open>Timers of a call\<close>

lemma distinct_singleton_set: "distinct xs \<Longrightarrow> set xs = {x} \<Longrightarrow> xs = [x]"
proof (cases xs)
  case Nil
  assume "set xs = {x}"
  with Nil show ?thesis by simp
next
  case (Cons a ys)
  assume d: "distinct xs" and s: "set xs = {x}"
  from s Cons have a: "a = x" and "set ys \<subseteq> {x}" by auto
  moreover from d Cons a have "x \<notin> set ys" by simp
  ultimately have "ys = []" by (cases ys) auto
  with a Cons show ?thesis by simp
qed

lemma timers_of_set:
  "distinct (map fst (timers w)) \<Longrightarrow> set (timers_of w p) = {t. map_of (timers w) t = Some p}"
  by (auto simp add: timers_of_def image_iff)

lemma timers_of_distinct: "distinct (map fst (timers w)) \<Longrightarrow> distinct (timers_of w p)"
  by (simp add: timers_of_def distinct_map_filter)

lemma timers_of_tracked:
  assumes "consistent w" "entry w p = Some c"
  shows "timers_of w p = (case timer_id c of None \<Rightarrow> [] | Some t \<Rightarrow> [t])"
proof -
  note d = consistentD [OF assms(1)]
  have ok: "entry_ok w p c" using d(7) assms(2) .
  have iff: "map_of (timers w) t = Some p \<longleftrightarrow> timer_id c = Some t" for t
  proof
    assume "map_of (timers w) t = Some p"
    from d(5) [OF this] assms(2) show "timer_id c = Some t" by auto
  next
    assume "timer_id c = Some t"
    with ok show "map_of (timers w) t = Some p" by (simp add: entry_ok_def)
  qed
  show ?thesis
  proof (cases "timer_id c")
    case None
    then have "set (timers_of w p) = {}"
      by (simp add: timers_of_set [OF d(2)] iff)
    with None show ?thesis by simp
  next
    case (Some t)
    then have "set (timers_of w p) = {t}"
      by (auto simp add: timers_of_set [OF d(2)] iff)
    with timers_of_distinct [OF d(2)] have "timers_of w p = [t]"
      by (rule distinct_singleton_set)
    with Some show ?thesis by simp
  qed
qed

lemma timers_of_untracked:
  assumes "consistent w" "entry w p = None"
  shows "timers_of w p = []"
proof -
  note d = consistentD [OF assms(1)]
  have "map_of (timers w) t \<noteq> Some p" for t
  proof
    assume "map_of (timers w) t = Some p"
    from d(5) [OF this] assms(2) show False by auto
  qed
  then have "set (timers_of w p) = {}"
    by (simp add: timers_of_set [OF d(2)])
  then show ?thesis by simp
qed

lemma timer_positive: "consistent w \<Longrightarrow> entry w p = Some c \<Longrightarrow> timer_id c = Some t \<Longrightarrow> t \<noteq> 0"
  using consistentD(7) [of w p c] by (auto simp add: entry_ok_def)

lemma w_active_handler:
  "on_properties_changed Call1 [(''State'', ''active'')] [] (Some ''/c1'') w_incoming = w_active"
  by (simp add: w_active_step ev_active_def)

lemma w_removed_handler: "on_interfaces_removed ''/c1'' [Call1] w_active = w_removed"
  by (simp add: w_removed_step ev_removed_def)

section \<open>A call becomes active\<close>

lemma activation_effect:
  fixes iv :: "string list"
  assumes con: "consistent w" and c: "entry w p = Some c"
    and act: "map_of cp ''State'' = Some ''active''" "p \<noteq> []"
  defines "w' \<equiv> on_properties_changed Call1 cp iv (Some p) w"
  shows "entry w' p =
      Some (c\<lparr>state := ''active'', start_time := Some (clock w (clock_reads w)),
             timer_id := Some (next_source w)\<rparr>)"
    and "\<exists>win. map_of (windows w') (window c) = Some win \<and>
      state_label win = ''Call in progress'' \<and> \<not> answer_sensitive win \<and> hangup_sensitive win"
    and "trace w' =
      trace w @ [Print (''[popup] State changed: '' @ p @ '' -> active''), Present (window c)] @
      (case timer_id c of None \<Rightarrow> [] | Some t \<Rightarrow> [SourceRemove t]) @
      [TimeoutAdd 1 (next_source w) p]"
    and "timers w' =
      AList.update (next_source w) p
        (case timer_id c of None \<Rightarrow> timers w | Some t \<Rightarrow> AList.delete t (timers w))"
    and "timers_of w' p = [next_source w]"
proof -
  define w1 where "w1 = log_msg (''State changed: '' @ p @ '' -> active'') w"
  have w': "w' = mark_active p w1"
    using act by (simp add: w'_def w1_def on_properties_changed_def Let_def)
  have c1: "entry w1 p = Some c" using c by (simp add: w1_def)
  have f1: "clock w1 = clock w" "clock_reads w1 = clock_reads w" "next_source w1 = next_source w"
    "trace w1 = trace w @ [Print (''[popup] State changed: '' @ p @ '' -> active'')]"
    "timers w1 = timers w" "windows w1 = windows w"
    by (simp_all add: w1_def log_msg_def)
  have pos: "t \<noteq> 0" if "timer_id c = Some t" for t
    using timer_positive [OF con c that] .
  show e': "entry w' p =
      Some (c\<lparr>state := ''active'', start_time := Some (clock w (clock_reads w)),
             timer_id := Some (next_source w)\<rparr>)"
    unfolding w' by (simp add: mark_active_entry c1 f1)
  from consistentD(7) [OF con c] obtain win where win: "map_of (windows w) (window c) = Some win"
    by (auto simp add: entry_ok_def)
  show "\<exists>win. map_of (windows w') (window c) = Some win \<and>
      state_label win = ''Call in progress'' \<and> \<not> answer_sensitive win \<and> hangup_sensitive win"
    unfolding w'
    using win
    by (simp add: mark_active_windows [OF c1] f1 map_of_map_entry_eq update_timer_label_def
        Let_def)
  show "trace w' =
      trace w @ [Print (''[popup] State changed: '' @ p @ '' -> active''), Present (window c)] @
      (case timer_id c of None \<Rightarrow> [] | Some t \<Rightarrow> [SourceRemove t]) @
      [TimeoutAdd 1 (next_source w) p]"
    unfolding w' using pos by (auto simp add: mark_active_trace [OF c1] f1 split: option.splits)
  show "timers w' =
      AList.update (next_source w) p
        (case timer_id c of None \<Rightarrow> timers w | Some t \<Rightarrow> AList.delete t (timers w))"
    unfolding w' using pos by (auto simp add: mark_active_timers [OF c1] f1 split: option.splits)
  have "consistent w'"
    unfolding w'_def using con by (rule consistent_on_properties_changed)
  from timers_of_tracked [OF this e'] show "timers_of w' p = [next_source w]"
    by simp
qed

lemma start_time_frame:
  assumes "consistent w" "\<not> activates q e"
  shows "case entry (step e w) q of
      None \<Rightarrow> True
    | Some d' \<Rightarrow> start_time d' = (case entry w q of None \<Rightarrow> None | Some d \<Rightarrow> start_time d)"
  using assms(2) by (simp add: step_entry [OF assms(1)] split: event.splits option.splits)

text \<open>
  C4. In every world the event loop can reach, a change of the state of a tracked call (of
  non-empty object path) to active sets the entry's state to active, its start time to the
  clock reading taken and its timer to a new source; the window goes to active mode and is
  presented; a timer the entry held is removed before the new one, ticking every second,
  is added, so that exactly one source ticks the call afterwards. In every such world each
  tracked call is ticked by exactly the source its entry holds, and by none if it holds
  none. An event that is not a change of that call's state to active leaves the start time
  of its entry as it was, and a new entry has none.
\<close>

theorem activation_contract:
  "(let w = run (init_world pf) es;
        w' = on_properties_changed Call1 cp iv (Some p) w
    in (\<forall>c. entry w p = Some c \<and> map_of cp ''State'' = Some ''active'' \<and> p \<noteq> [] \<longrightarrow>
            entry w' p =
              Some (c\<lparr>state := ''active'', start_time := Some (clock w (clock_reads w)),
                     timer_id := Some (next_source w)\<rparr>) \<and>
            (\<exists>win. map_of (windows w') (window c) = Some win \<and>
                   state_label win = ''Call in progress'' \<and> \<not> answer_sensitive win \<and>
                   hangup_sensitive win) \<and>
            trace w' =
              trace w @
              [Print (''[popup] State changed: '' @ p @ '' -> active''), Present (window c)] @
              (case timer_id c of None \<Rightarrow> [] | Some t \<Rightarrow> [SourceRemove t]) @
              [TimeoutAdd 1 (next_source w) p] \<and>
            timers w' =
              AList.update (next_source w) p
                (case timer_id c of None \<Rightarrow> timers w | Some t \<Rightarrow> AList.delete t (timers w)) \<and>
            timers_of w' p = [next_source w]) \<and>
       (\<forall>q d. entry w q = Some d \<longrightarrow>
            timers_of w q = (case timer_id d of None \<Rightarrow> [] | Some t \<Rightarrow> [t])) \<and>
       (\<forall>e q. \<not> activates q e \<longrightarrow>
            (case entry (step e w) q of
               None \<Rightarrow> True
             | Some d' \<Rightarrow>
                 start_time d' = (case entry w q of None \<Rightarrow> None | Some d \<Rightarrow> start_time d))))"
proof -
  define w where "w = run (init_world pf) es"
  define w' where "w' = on_properties_changed Call1 cp iv (Some p) w"
  have con: "consistent w" unfolding w_def by (rule consistent_reachable)
  have A: "entry w' p =
        Some (c\<lparr>state := ''active'', start_time := Some (clock w (clock_reads w)),
               timer_id := Some (next_source w)\<rparr>) \<and>
      (\<exists>win. map_of (windows w') (window c) = Some win \<and>
             state_label win = ''Call in progress'' \<and> \<not> answer_sensitive win \<and>
             hangup_sensitive win) \<and>
      trace w' =
        trace w @
        [Print (''[popup] State changed: '' @ p @ '' -> active''), Present (window c)] @
        (case timer_id c of None \<Rightarrow> [] | Some t \<Rightarrow> [SourceRemove t]) @
        [TimeoutAdd 1 (next_source w) p] \<and>
      timers w' =
        AList.update (next_source w) p
          (case timer_id c of None \<Rightarrow> timers w | Some t \<Rightarrow> AList.delete t (timers w)) \<and>
      timers_of w' p = [next_source w]"
    if "entry w p = Some c \<and> map_of cp ''State'' = Some ''active'' \<and> p \<noteq> []" for c
  proof -
    from that have h: "entry w p = Some c" "map_of cp ''State'' = Some ''active''" "p \<noteq> []"
      by simp_all
    from activation_effect [OF con h, of iv] show ?thesis
      unfolding w'_def by (intro conjI)
  qed
  have B: "timers_of w q = (case timer_id d of None \<Rightarrow> [] | Some t \<Rightarrow> [t])"
    if "entry w q = Some d" for q d
    using timers_of_tracked [OF con that] .
  have C: "case entry (step e w) q of
        None \<Rightarrow> True
      | Some d' \<Rightarrow> start_time d' = (case entry w q of None \<Rightarrow> None | Some d \<Rightarrow> start_time d)"
    if "\<not> activates q e" for e q
    using start_time_frame [OF con that] .
  show ?thesis
    unfolding Let_def w_def [symmetric] w'_def [symmetric]
  proof (intro conjI)
    show "\<forall>c. entry w p = Some c \<and> map_of cp ''State'' = Some ''active'' \<and> p \<noteq> [] \<longrightarrow>
        entry w' p =
          Some (c\<lparr>state := ''active'', start_time := Some (clock w (clock_reads w)),
                 timer_id := Some (next_source w)\<rparr>) \<and>
        (\<exists>win. map_of (windows w') (window c) = Some win \<and>
               state_label win = ''Call in progress'' \<and> \<not> answer_sensitive win \<and>
               hangup_sensitive win) \<and>
        trace w' =
          trace w @
          [Print (''[popup] State changed: '' @ p @ '' -> active''), Present (window c)] @
          (case timer_id c of None \<Rightarrow> [] | Some t \<Rightarrow> [SourceRemove t]) @
          [TimeoutAdd 1 (next_source w) p] \<and>
        timers w' =
          AList.update (next_source w) p
            (case timer_id c of None \<Rightarrow> timers w | Some t \<Rightarrow> AList.delete t (timers w)) \<and>
        timers_of w' p = [next_source w]"
      using A by (intro allI impI)
    show "\<forall>q d. entry w q = Some d \<longrightarrow>
        timers_of w q = (case timer_id d of None \<Rightarrow> [] | Some t \<Rightarrow> [t])"
      using B by (intro allI impI)
    show "\<forall>e q. \<not> activates q e \<longrightarrow>
        (case entry (step e w) q of
           None \<Rightarrow> True
         | Some d' \<Rightarrow>
             start_time d' = (case entry w q of None \<Rightarrow> None | Some d \<Rightarrow> start_time d))"
      using C by (intro allI impI)
  qed
qed

theorem activation_contract_witness:
  "entry w_active ''/c1'' =
     Some \<lparr>caller_id = ''Alice'', state = ''active'', window = 0, start_time = Some 0,
           timer_id = Some 1\<rparr> \<and>
   timers_of w_active ''/c1'' = [1] \<and>
   entry (on_properties_changed Call1 [(''State'', ''active'')] [] (Some ''/c1'') w_active) ''/c1'' =
     Some \<lparr>caller_id = ''Alice'', state = ''active'', window = 0, start_time = Some 65,
           timer_id = Some 2\<rparr> \<and>
   trace (on_properties_changed Call1 [(''State'', ''active'')] [] (Some ''/c1'') w_active) =
     trace w_active @
     [Print ''[popup] State changed: /c1 -> active'', Present 0, SourceRemove 1,
      TimeoutAdd 1 2 ''/c1''] \<and>
   timers_of (on_properties_changed Call1 [(''State'', ''active'')] [] (Some ''/c1'') w_active)
     ''/c1'' = [2] \<and>
   (case entry (step (TimerFired 1) w_active) ''/c1'' of
      None \<Rightarrow> False
    | Some d \<Rightarrow> start_time d = Some 0)"
proof -
  note a = activation_contract [of platform0 "[ev_appeared]" "[(''State'', ''active'')]" "[]"
      "''/c1''", unfolded Let_def, folded w_incoming_def, unfolded w_active_handler]
  note b = activation_contract [of platform0 "[ev_appeared, ev_active]" "[(''State'', ''active'')]"
      "[]" "''/c1''", unfolded Let_def, folded w_active_def]
  have i: "entry w_incoming ''/c1'' =
      Some \<lparr>caller_id = ''Alice'', state = ''incoming'', window = 0, start_time = None,
            timer_id = None\<rparr>"
    "clock w_incoming (clock_reads w_incoming) = 0" "next_source w_incoming = 1"
    by (simp_all add: w_incoming_eq clock0_def)
  have e: "entry w_active ''/c1'' =
      Some \<lparr>caller_id = ''Alice'', state = ''active'', window = 0, start_time = Some 0,
            timer_id = Some 1\<rparr>"
    "clock w_active (clock_reads w_active) = 65" "next_source w_active = 2"
    by (simp_all add: w_active_eq clock0_def)
  from a i have 1: "timers_of w_active ''/c1'' = [1]"
    by simp
  from b e have 2:
    "entry (on_properties_changed Call1 [(''State'', ''active'')] [] (Some ''/c1'') w_active) ''/c1'' =
       Some \<lparr>caller_id = ''Alice'', state = ''active'', window = 0, start_time = Some 65,
             timer_id = Some 2\<rparr> \<and>
     trace (on_properties_changed Call1 [(''State'', ''active'')] [] (Some ''/c1'') w_active) =
       trace w_active @
       [Print ''[popup] State changed: /c1 -> active'', Present 0, SourceRemove 1,
        TimeoutAdd 1 2 ''/c1''] \<and>
     timers_of (on_properties_changed Call1 [(''State'', ''active'')] [] (Some ''/c1'') w_active)
       ''/c1'' = [2]"
    by simp
  have "\<not> activates ''/c1'' (TimerFired 1)" by simp
  with b have "case entry (step (TimerFired 1) w_active) ''/c1'' of
      None \<Rightarrow> True
    | Some d' \<Rightarrow>
        start_time d' = (case entry w_active ''/c1'' of None \<Rightarrow> None | Some d \<Rightarrow> start_time d)"
    by blast
  then have 3: "case entry (step (TimerFired 1) w_active) ''/c1'' of
      None \<Rightarrow> False
    | Some d \<Rightarrow> start_time d = Some 0"
    using e(1) by (simp add: fire_timer_frame)
  from e(1) 1 2 3 show ?thesis by blast
qed

section \<open>A call is removed\<close>

lemma cleanup_effect:
  fixes m :: string
  assumes con: "consistent w" and c: "entry w p = Some c"
  defines "w' \<equiv> close_call p (log_msg m w)"
  shows "entry w' p = None"
    and "calls w' = AList.delete p (calls w)"
    and "timers w' = (case timer_id c of None \<Rightarrow> timers w | Some t \<Rightarrow> AList.delete t (timers w))"
    and "timers_of w' p = []"
    and "windows w' =
      AList.map_entry (window c) (\<lambda>win. win\<lparr>destroyed := True, visible := False\<rparr>) (windows w)"
    and "\<exists>win. map_of (windows w') (window c) = Some win \<and> destroyed win"
    and "trace w' =
      trace w @ [Print (''[popup] '' @ m)] @
      (case timer_id c of None \<Rightarrow> [] | Some t \<Rightarrow> [SourceRemove t]) @
      [Destroy (window c), Print (''[popup] Closed call UI for '' @ p)]"
    and "next_source w' = next_source w" and "next_window w' = next_window w"
proof -
  define w1 where "w1 = log_msg m w"
  have con1: "consistent w1" using con by (simp add: w1_def)
  have c1: "entry w1 p = Some c" using c by (simp add: w1_def)
  have f1: "calls w1 = calls w" "timers w1 = timers w" "windows w1 = windows w"
    "trace w1 = trace w @ [Print (''[popup] '' @ m)]" "next_source w1 = next_source w"
    "next_window w1 = next_window w"
    by (simp_all add: w1_def log_msg_def)
  have w': "w' = close_call p w1" by (simp add: w'_def w1_def)
  show 1: "entry w' p = None" unfolding w' by (rule close_call_removes)
  show "calls w' = AList.delete p (calls w)"
    unfolding w' by (simp add: close_call_projections(1) [OF con1 c1] f1)
  show "timers w' = (case timer_id c of None \<Rightarrow> timers w | Some t \<Rightarrow> AList.delete t (timers w))"
    unfolding w' by (simp add: close_call_projections(2) [OF con1 c1] f1 split: option.splits)
  have "consistent w'" unfolding w' using con1 by (rule consistent_close_call)
  from timers_of_untracked [OF this 1] show "timers_of w' p = []" .
  show ws: "windows w' =
      AList.map_entry (window c) (\<lambda>win. win\<lparr>destroyed := True, visible := False\<rparr>) (windows w)"
    unfolding w' by (simp add: close_call_projections(3) [OF con1 c1] f1)
  from consistentD(7) [OF con c] obtain win where "map_of (windows w) (window c) = Some win"
    by (auto simp add: entry_ok_def)
  then show "\<exists>win. map_of (windows w') (window c) = Some win \<and> destroyed win"
    by (simp add: ws map_of_map_entry_eq)
  show "trace w' =
      trace w @ [Print (''[popup] '' @ m)] @
      (case timer_id c of None \<Rightarrow> [] | Some t \<Rightarrow> [SourceRemove t]) @
      [Destroy (window c), Print (''[popup] Closed call UI for '' @ p)]"
    unfolding w' by (simp add: close_call_projections(4) [OF con1 c1] f1 split: option.splits)
  show "next_source w' = next_source w" "next_window w' = next_window w"
    unfolding w' by (simp_all add: close_call_projections(5,6) [OF con1 c1] f1)
qed

text \<open>
  C5. In every world the event loop can reach, for a tracked call: \<open>on_interfaces_removed\<close>
  with the Call1 interface removes the timer the entry holds (so that no source ticks the
  call any more), destroys the call's window and deletes the entry, and nothing else of
  the registry. A change of the call's state to disconnected (on a non-empty object path)
  does the same: registry, timers and windows are the same afterwards, and the calls made
  to the outside differ in the first log line only.
\<close>

theorem removal_contract:
  "(let w = run (init_world pf) es;
        w1 = on_interfaces_removed p ifaces w;
        w2 = on_properties_changed Call1 cp iv (Some p) w
    in \<forall>c. entry w p = Some c \<longrightarrow>
         (Call1 \<in> set ifaces \<longrightarrow>
            entry w1 p = None \<and>
            calls w1 = AList.delete p (calls w) \<and>
            timers w1 =
              (case timer_id c of None \<Rightarrow> timers w | Some t \<Rightarrow> AList.delete t (timers w)) \<and>
            timers_of w1 p = [] \<and>
            (\<exists>win. map_of (windows w1) (window c) = Some win \<and> destroyed win) \<and>
            trace w1 =
              trace w @ [Print (''[popup] Call removed: '' @ p)] @
              (case timer_id c of None \<Rightarrow> [] | Some t \<Rightarrow> [SourceRemove t]) @
              [Destroy (window c), Print (''[popup] Closed call UI for '' @ p)]) \<and>
         (map_of cp ''State'' = Some ''disconnected'' \<and> p \<noteq> [] \<longrightarrow>
            entry w2 p = None \<and>
            calls w2 = AList.delete p (calls w) \<and>
            timers w2 =
              (case timer_id c of None \<Rightarrow> timers w | Some t \<Rightarrow> AList.delete t (timers w)) \<and>
            timers_of w2 p = [] \<and>
            (\<exists>win. map_of (windows w2) (window c) = Some win \<and> destroyed win) \<and>
            trace w2 =
              trace w @ [Print (''[popup] State changed: '' @ p @ '' -> disconnected'')] @
              (case timer_id c of None \<Rightarrow> [] | Some t \<Rightarrow> [SourceRemove t]) @
              [Destroy (window c), Print (''[popup] Closed call UI for '' @ p)]) \<and>
         (Call1 \<in> set ifaces \<and> map_of cp ''State'' = Some ''disconnected'' \<and> p \<noteq> [] \<longrightarrow>
            calls w2 = calls w1 \<and> timers w2 = timers w1 \<and> windows w2 = windows w1 \<and>
            next_source w2 = next_source w1 \<and> next_window w2 = next_window w1))"
proof -
  define w where "w = run (init_world pf) es"
  define w1 where "w1 = on_interfaces_removed p ifaces w"
  define w2 where "w2 = on_properties_changed Call1 cp iv (Some p) w"
  have con: "consistent w" unfolding w_def by (rule consistent_reachable)
  have r1: "w1 = close_call p (log_msg (''Call removed: '' @ p) w)" if "Call1 \<in> set ifaces"
    using that by (simp add: w1_def on_interfaces_removed_def)
  have r2: "w2 = close_call p (log_msg (''State changed: '' @ p @ '' -> disconnected'') w)"
    if "map_of cp ''State'' = Some ''disconnected''" "p \<noteq> []"
    using that by (simp add: w2_def on_properties_changed_def Let_def)
  have A: "entry w1 p = None \<and>
      calls w1 = AList.delete p (calls w) \<and>
      timers w1 =
        (case timer_id c of None \<Rightarrow> timers w | Some t \<Rightarrow> AList.delete t (timers w)) \<and>
      timers_of w1 p = [] \<and>
      (\<exists>win. map_of (windows w1) (window c) = Some win \<and> destroyed win) \<and>
      trace w1 =
        trace w @ [Print (''[popup] Call removed: '' @ p)] @
        (case timer_id c of None \<Rightarrow> [] | Some t \<Rightarrow> [SourceRemove t]) @
        [Destroy (window c), Print (''[popup] Closed call UI for '' @ p)]"
    if "entry w p = Some c" "Call1 \<in> set ifaces" for c
    using cleanup_effect(1,2,3,4,6,7) [OF con that(1), of "''Call removed: '' @ p"]
    unfolding r1 [OF that(2)] by (intro conjI; simp)
  have B: "entry w2 p = None \<and>
      calls w2 = AList.delete p (calls w) \<and>
      timers w2 =
        (case timer_id c of None \<Rightarrow> timers w | Some t \<Rightarrow> AList.delete t (timers w)) \<and>
      timers_of w2 p = [] \<and>
      (\<exists>win. map_of (windows w2) (window c) = Some win \<and> destroyed win) \<and>
      trace w2 =
        trace w @ [Print (''[popup] State changed: '' @ p @ '' -> disconnected'')] @
        (case timer_id c of None \<Rightarrow> [] | Some t \<Rightarrow> [SourceRemove t]) @
        [Destroy (window c), Print (''[popup] Closed call UI for '' @ p)]"
    if "entry w p = Some c" "map_of cp ''State'' = Some ''disconnected'' \<and> p \<noteq> []" for c
  proof -
    from that(2) have h: "map_of cp ''State'' = Some ''disconnected''" "p \<noteq> []" by simp_all
    show ?thesis
      using cleanup_effect(1,2,3,4,6,7) [OF con that(1),
          of "''State changed: '' @ p @ '' -> disconnected''"]
      unfolding r2 [OF h] by (intro conjI; simp)
  qed
  have C: "calls w2 = calls w1 \<and> timers w2 = timers w1 \<and> windows w2 = windows w1 \<and>
      next_source w2 = next_source w1 \<and> next_window w2 = next_window w1"
    if "entry w p = Some c"
      "Call1 \<in> set ifaces \<and> map_of cp ''State'' = Some ''disconnected'' \<and> p \<noteq> []" for c
  proof -
    from that(2) have h: "Call1 \<in> set ifaces" "map_of cp ''State'' = Some ''disconnected''"
      "p \<noteq> []" by simp_all
    show ?thesis
      unfolding r1 [OF h(1)] r2 [OF h(2,3)]
      by (simp add: cleanup_effect(2,3,5,8,9) [OF con that(1)])
  qed
  show ?thesis
    unfolding Let_def w_def [symmetric] w1_def [symmetric] w2_def [symmetric]
  proof (intro allI impI conjI)
    fix c
    assume c: "entry w p = Some c"
    show "Call1 \<in> set ifaces \<Longrightarrow> entry w1 p = None"
      "Call1 \<in> set ifaces \<Longrightarrow> calls w1 = AList.delete p (calls w)"
      "Call1 \<in> set ifaces \<Longrightarrow> timers w1 =
        (case timer_id c of None \<Rightarrow> timers w | Some t \<Rightarrow> AList.delete t (timers w))"
      "Call1 \<in> set ifaces \<Longrightarrow> timers_of w1 p = []"
      "Call1 \<in> set ifaces \<Longrightarrow> \<exists>win. map_of (windows w1) (window c) = Some win \<and> destroyed win"
      "Call1 \<in> set ifaces \<Longrightarrow> trace w1 =
        trace w @ [Print (''[popup] Call removed: '' @ p)] @
        (case timer_id c of None \<Rightarrow> [] | Some t \<Rightarrow> [SourceRemove t]) @
        [Destroy (window c), Print (''[popup] Closed call UI for '' @ p)]"
      using A [OF c] by blast+
    show "map_of cp ''State'' = Some ''disconnected'' \<and> p \<noteq> [] \<Longrightarrow> entry w2 p = None"
      "map_of cp ''State'' = Some ''disconnected'' \<and> p \<noteq> [] \<Longrightarrow>
        calls w2 = AList.delete p (calls w)"
      "map_of cp ''State'' = Some ''disconnected'' \<and> p \<noteq> [] \<Longrightarrow> timers w2 =
        (case timer_id c of None \<Rightarrow> timers w | Some t \<Rightarrow> AList.delete t (timers w))"
      "map_of cp ''State'' = Some ''disconnected'' \<and> p \<noteq> [] \<Longrightarrow> timers_of w2 p = []"
      "map_of cp ''State'' = Some ''disconnected'' \<and> p \<noteq> [] \<Longrightarrow>
        \<exists>win. map_of (windows w2) (window c) = Some win \<and> destroyed win"
      "map_of cp ''State'' = Some ''disconnected'' \<and> p \<noteq> [] \<Longrightarrow> trace w2 =
        trace w @ [Print (''[popup] State changed: '' @ p @ '' -> disconnected'')] @
        (case timer_id c of None \<Rightarrow> [] | Some t \<Rightarrow> [SourceRemove t]) @
        [Destroy (window c), Print (''[popup] Closed call UI for '' @ p)]"
      using B [OF c] by blast+
    show "Call1 \<in> set ifaces \<and> map_of cp ''State'' = Some ''disconnected'' \<and> p \<noteq> [] \<Longrightarrow>
        calls w2 = calls w1"
      "Call1 \<in> set ifaces \<and> map_of cp ''State'' = Some ''disconnected'' \<and> p \<noteq> [] \<Longrightarrow>
        timers w2 = timers w1"
      "Call1 \<in> set ifaces \<and> map_of cp ''State'' = Some ''disconnected'' \<and> p \<noteq> [] \<Longrightarrow>
        windows w2 = windows w1"
      "Call1 \<in> set ifaces \<and> map_of cp ''State'' = Some ''disconnected'' \<and> p \<noteq> [] \<Longrightarrow>
        next_source w2 = next_source w1"
      "Call1 \<in> set ifaces \<and> map_of cp ''State'' = Some ''disconnected'' \<and> p \<noteq> [] \<Longrightarrow>
        next_window w2 = next_window w1"
      using C [OF c] by blast+
  qed
qed

theorem removal_contract_witness:
  "entry w_active ''/c1'' =
     Some \<lparr>caller_id = ''Alice'', state = ''active'', window = 0, start_time = Some 0,
           timer_id = Some 1\<rparr> \<and>
   entry w_removed ''/c1'' = None \<and>
   calls w_removed = [] \<and>
   timers w_removed = [] \<and>
   timers_of w_removed ''/c1'' = [] \<and>
   (\<exists>win. map_of (windows w_removed) 0 = Some win \<and> destroyed win) \<and>
   trace w_removed =
     trace w_active @
     [Print ''[popup] Call removed: /c1'', SourceRemove 1, Destroy 0,
      Print ''[popup] Closed call UI for /c1''] \<and>
   calls (on_properties_changed Call1 [(''State'', ''disconnected'')] [] (Some ''/c1'') w_active) =
     calls w_removed \<and>
   timers (on_properties_changed Call1 [(''State'', ''disconnected'')] [] (Some ''/c1'') w_active) =
     timers w_removed \<and>
   windows (on_properties_changed Call1 [(''State'', ''disconnected'')] [] (Some ''/c1'') w_active) =
     windows w_removed \<and>
   trace (on_properties_changed Call1 [(''State'', ''disconnected'')] [] (Some ''/c1'') w_active) =
     trace w_active @
     [Print ''[popup] State changed: /c1 -> disconnected'', SourceRemove 1, Destroy 0,
      Print ''[popup] Closed call UI for /c1'']"
proof -
  note a = removal_contract [of platform0 "[ev_appeared, ev_active]" "''/c1''" "[Call1]"
      "[(''State'', ''disconnected'')]" "[]", unfolded Let_def, folded w_active_def,
      unfolded w_removed_handler]
  have e: "entry w_active ''/c1'' =
      Some \<lparr>caller_id = ''Alice'', state = ''active'', window = 0, start_time = Some 0,
            timer_id = Some 1\<rparr>"
    by (simp add: w_active_eq)
  have v: "calls w_active = [(''/c1'', \<lparr>caller_id = ''Alice'', state = ''active'', window = 0,
      start_time = Some 0, timer_id = Some 1\<rparr>)]" "timers w_active = [(1, ''/c1'')]"
    by (simp_all add: w_active_eq)
  from a e show ?thesis
    by (simp add: v)
qed

section \<open>The caller text\<close>

lemma show_window_new_window:
  assumes "entry w p = None"
  shows "map_of (windows (show_window p cid ''incoming'' w)) (next_window w) =
    Some \<lparr>win_path = p, state_label = ''Incoming call'',
          caller_label = ''From: '' @ (if cid = [] then ''Unknown'' else cid),
          timer_label = ringing, answer_sensitive = True, hangup_sensitive = True,
          visible = True, destroyed = False\<rparr>"
proof -
  have "show_window p cid ''incoming'' w =
      w\<lparr>windows :=
         AList.map_entry (next_window w)
           (\<lambda>win. win\<lparr>state_label := ''Incoming call'', answer_sensitive := True,
                      hangup_sensitive := True, timer_label := ringing\<rparr>)
           (AList.map_entry (next_window w) (\<lambda>win. win\<lparr>visible := True\<rparr>)
              (AList.update (next_window w) (new_call_window cid p) (windows w))),
       next_window := Suc (next_window w),
       calls :=
         AList.update p
           \<lparr>caller_id = (if cid = [] then ''Unknown'' else cid), state = ''incoming'',
            window = next_window w, start_time = None, timer_id = None\<rparr>
           (calls w),
       trace := trace w @ [Present (next_window w)]\<rparr>"
    using assms by (rule show_window_new) simp
  then show ?thesis
    by (simp add: map_of_map_entry_eq AList.update_conv' new_call_window_def)
qed

text \<open>
  C10. When a call appears in state incoming on an untracked path and its
  LineIdentification property is absent or empty, the new entry's caller is Unknown and
  the caller label of its window reads From: Unknown. In every world the event loop can
  reach, no entry has an empty caller, and the caller label of an entry's window is
  From: followed by the entry's caller.
\<close>

theorem caller_id_never_empty:
  "(map_of interfaces Call1 = Some props \<and> props \<noteq> [] \<and>
    map_of props ''State'' = Some ''incoming'' \<and> entry w p = None \<and>
    (map_of props ''LineIdentification'' = None \<or>
     map_of props ''LineIdentification'' = Some []) \<longrightarrow>
      (\<exists>c win. entry (on_interfaces_added p interfaces w) p = Some c \<and>
         caller_id c = ''Unknown'' \<and>
         map_of (windows (on_interfaces_added p interfaces w)) (window c) = Some win \<and>
         caller_label win = ''From: Unknown'')) \<and>
   (\<forall>q c. entry (run (init_world pf) es) q = Some c \<longrightarrow>
      caller_id c \<noteq> [] \<and>
      (\<exists>win. map_of (windows (run (init_world pf) es)) (window c) = Some win \<and>
         caller_label win = ''From: '' @ caller_id c \<and> caller_label win \<noteq> ''From: ''))"
proof -
  have new: "\<exists>c win. entry (on_interfaces_added p interfaces w) p = Some c \<and>
         caller_id c = ''Unknown'' \<and>
         map_of (windows (on_interfaces_added p interfaces w)) (window c) = Some win \<and>
         caller_label win = ''From: Unknown''"
    if h: "map_of interfaces Call1 = Some props" "props \<noteq> []"
      "map_of props ''State'' = Some ''incoming''" "entry w p = None"
      "map_of props ''LineIdentification'' = None \<or> map_of props ''LineIdentification'' = Some []"
  proof -
    define cid where
      "cid = (case map_of props ''LineIdentification'' of None \<Rightarrow> ''Unknown'' | Some s \<Rightarrow> s)"
    define m where "m = ''Incoming call: '' @ cid @ '' (state=incoming) path='' @ p"
    have cid: "(if cid = [] then ''Unknown'' else cid) = ''Unknown''"
      using h(5) by (auto simp add: cid_def)
    have eq: "on_interfaces_added p interfaces w = show_window p cid ''incoming'' (log_msg m w)"
      using h(1-3) by (simp add: on_interfaces_added_def Let_def cid_def m_def)
    have u: "entry (log_msg m w) p = None" using h(4) by simp
    have "entry (on_interfaces_added p interfaces w) p =
        Some \<lparr>caller_id = ''Unknown'', state = ''incoming'', window = next_window w,
              start_time = None, timer_id = None\<rparr>"
      unfolding eq using u cid by (simp add: show_window_entry log_msg_def)
    moreover have "map_of (windows (on_interfaces_added p interfaces w)) (next_window w) =
        Some \<lparr>win_path = p, state_label = ''Incoming call'', caller_label = ''From: Unknown'',
          timer_label = ringing, answer_sensitive = True, hangup_sensitive = True,
          visible = True, destroyed = False\<rparr>"
      unfolding eq using show_window_new_window [OF u, of cid] cid by (simp add: log_msg_def)
    ultimately show ?thesis by simp
  qed
  have kept: "caller_id c \<noteq> [] \<and>
      (\<exists>win. map_of (windows (run (init_world pf) es)) (window c) = Some win \<and>
         caller_label win = ''From: '' @ caller_id c \<and> caller_label win \<noteq> ''From: '')"
    if "entry (run (init_world pf) es) q = Some c" for q c
    using consistentD(7) [OF consistent_reachable that] by (auto simp add: entry_ok_def)
  from new kept show ?thesis by blast
qed

theorem caller_id_never_empty_witness:
  "(\<exists>c win.
      entry (on_interfaces_added ''/c2''
               [(Call1, [(''State'', ''incoming''), (''LineIdentification'', [])])] w_active)
        ''/c2'' = Some c \<and>
      caller_id c = ''Unknown'' \<and>
      map_of (windows (on_interfaces_added ''/c2''
               [(Call1, [(''State'', ''incoming''), (''LineIdentification'', [])])] w_active))
        (window c) = Some win \<and>
      caller_label win = ''From: Unknown'') \<and>
   (\<exists>c win.
      entry (on_interfaces_added ''/c2'' [(Call1, [(''State'', ''incoming'')])] w_active)
        ''/c2'' = Some c \<and>
      caller_id c = ''Unknown'' \<and>
      map_of (windows (on_interfaces_added ''/c2'' [(Call1, [(''State'', ''incoming'')])]
               w_active))
        (window c) = Some win \<and>
      caller_label win = ''From: Unknown'') \<and>
   (\<exists>win. map_of (windows w_active) 0 = Some win \<and> caller_label win = ''From: Alice'')"
proof -
  note a = caller_id_never_empty [of
      "[(Call1, [(''State'', ''incoming''), (''LineIdentification'', [])])]"
      "[(''State'', ''incoming''), (''LineIdentification'', [])]" w_active "''/c2''"
      platform0 "[ev_appeared, ev_active]", folded w_active_def]
  note b = caller_id_never_empty [of "[(Call1, [(''State'', ''incoming'')])]"
      "[(''State'', ''incoming'')]" w_active "''/c2''" platform0 "[ev_appeared, ev_active]",
      folded w_active_def]
  have u: "entry w_active ''/c2'' = None"
    and e: "entry w_active ''/c1'' =
      Some \<lparr>caller_id = ''Alice'', state = ''active'', window = 0, start_time = Some 0,
            timer_id = Some 1\<rparr>"
    by (simp_all add: w_active_eq)
  from a u have 1: "\<exists>c win.
      entry (on_interfaces_added ''/c2''
               [(Call1, [(''State'', ''incoming''), (''LineIdentification'', [])])] w_active)
        ''/c2'' = Some c \<and>
      caller_id c = ''Unknown'' \<and>
      map_of (windows (on_interfaces_added ''/c2''
               [(Call1, [(''State'', ''incoming''), (''LineIdentification'', [])])] w_active))
        (window c) = Some win \<and>
      caller_label win = ''From: Unknown''"
    by simp
  from b u have 2: "\<exists>c win.
      entry (on_interfaces_added ''/c2'' [(Call1, [(''State'', ''incoming'')])] w_active)
        ''/c2'' = Some c \<and>
      caller_id c = ''Unknown'' \<and>
      map_of (windows (on_interfaces_added ''/c2'' [(Call1, [(''State'', ''incoming'')])]
               w_active))
        (window c) = Some win \<and>
      caller_label win = ''From: Unknown''"
    by simp
  from a e have 3: "\<exists>win. map_of (windows w_active) 0 = Some win \<and>
      caller_label win = ''From: Alice''"
    by fastforce
  from 1 2 3 show ?thesis by blast
qed

end
